theory Spec2Isabelle
  imports Main "HOL-Library.AList"
begin

section \<open>JavaScript values\<close>

text \<open>
  The configuration handled by \<^verbatim>\<open>lib/index.js\<close> is loosely typed data. A value is
  one of the JavaScript kinds the validation helpers tell apart with \<^verbatim>\<open>typeof\<close>,
  \<^verbatim>\<open>Array.isArray\<close> and \<^verbatim>\<open>instanceof Date\<close>. An object is the list of its own
  enumerable properties in enumeration order (the order of \<^verbatim>\<open>Object.keys\<close>); a function
  is an opaque identity.
\<close>

datatype jsval =
    JUndefined
  | JNull
  | JBool bool
  | JNum int
  | JStr string
  | JFun nat
  | JDate int
  | JArr "jsval list"
  | JObj "(string \<times> jsval) list"

type_synonym props = "(string \<times> jsval) list"

text \<open>\<^verbatim>\<open>elv(x)\<close> of the elv package: the value is neither undefined nor null.\<close>

fun elv :: "jsval \<Rightarrow> bool" where
  "elv JUndefined = False"
| "elv JNull = False"
| "elv v = True"

text \<open>\<^verbatim>\<open>elv.coalesce(a, b)\<close>: the first argument that is defined.\<close>

definition coalesce :: "jsval \<Rightarrow> jsval \<Rightarrow> jsval" where
  "coalesce a b = (if elv a then a else b)"

text \<open>\<^verbatim>\<open>typeof v === 'object'\<close>; null has that type too.\<close>

fun typeof_object :: "jsval \<Rightarrow> bool" where
  "typeof_object JNull = True"
| "typeof_object (JDate t) = True"
| "typeof_object (JArr xs) = True"
| "typeof_object (JObj ps) = True"
| "typeof_object v = False"

fun typeof_function :: "jsval \<Rightarrow> bool" where
  "typeof_function (JFun f) = True"
| "typeof_function v = False"

fun isArray :: "jsval \<Rightarrow> bool" where
  "isArray (JArr xs) = True"
| "isArray v = False"

fun instanceof_Date :: "jsval \<Rightarrow> bool" where
  "instanceof_Date (JDate t) = True"
| "instanceof_Date v = False"

text \<open>
  A property read \<^verbatim>\<open>o[k]\<close>: the own property, undefined when there is none. On values
  other than objects the keys read in this program (\<^verbatim>\<open>host\<close>, configuration names)
  are undefined; on undefined and null JavaScript raises, and every read of the source
  is behind an \<^verbatim>\<open>elv\<close> check.
\<close>

definition get :: "props \<Rightarrow> string \<Rightarrow> jsval" where
  "get ps k = (case map_of ps k of None \<Rightarrow> JUndefined | Some v \<Rightarrow> v)"

fun getprop :: "jsval \<Rightarrow> string \<Rightarrow> jsval" where
  "getprop (JObj ps) k = get ps k"
| "getprop v k = JUndefined"

text \<open>\<^verbatim>\<open>Object.keys(o)\<close> of a plain object.\<close>

fun Object_keys :: "jsval \<Rightarrow> string list" where
  "Object_keys (JObj ps) = map fst ps"
| "Object_keys v = []"

subsection \<open>Validation helpers\<close>

definition isPojo :: "jsval \<Rightarrow> bool" where
  "isPojo obj \<longleftrightarrow> typeof_object obj \<and> \<not> isArray obj \<and> \<not> instanceof_Date obj"

fun isNonEmptyString :: "jsval \<Rightarrow> bool" where
  "isNonEmptyString (JStr v) = (length v > 0)"
| "isNonEmptyString v = False"

section \<open>Errors\<close>

text \<open>
  The error classes of \<^verbatim>\<open>lib/errors.js\<close> and the two built-in ones the connector
  raises. \<open>JsError\<close> is a plain \<^verbatim>\<open>Error\<close>, as raised by \<^verbatim>\<open>on\<close> and by the pool
  layer.
\<close>

datatype error =
    TypeError jsval
  | JsError jsval
  | ConfigurationError (message: jsval) (data: jsval)
  | MissingRepositoryError (message: jsval) (data: jsval)

text \<open>The message table \<^verbatim>\<open>msg\<close> of \<^verbatim>\<open>lib/index.js\<close>; a key it lacks reads undefined.\<close>

definition msg_table :: props where
  \<open>msg_table =
    [(''argCallback'', JStr ''Argument "callback" must be a function''),
     (''argEventNameStr'', JStr ''Argument "eventName" must be a non-empty string''),
     (''argUnknownEventName'', JStr ''Argument "eventName" references an unknown event: ''),
     (''argListenerFn'', JStr ''Argument "listener" must be a function''),
     (''argPgLib'', JStr ''Argument "lib" must include a constructor for Pool''),
     (''argProvidersArray'', JStr ''Argument "providers" must be an array''),
     (''argProvidersLen'', JStr ''Argument "providers" cannot be empty''),
     (''argRepoStr'', JStr ''Argument "repository" must be a non-empty string''),
     (''dbConfHostStr'', JStr ''Databases require a "host" key that is a non-empty string''),
     (''dbConfPojo'', JStr ''Loaded configuration "databases" sub keys must be POJOs''),
     (''databasesPojo'', JStr ''Loaded configuration's "databases" key must be a POJO''),
     (''noDatabases'', JStr ''Loaded configuration does not contain any "databases"''),
     (''reposPojo'', JStr ''Loaded configuration's "repositories" key must be a POJO''),
     (''repoConfMapping'', JStr ''Configured repository is mapped to missing database name''),
     (''repoConfStr'', JStr ''Loaded configuration "repositories" must non-empty strings''),
     (''sharedInvalid'', JStr ''Shared must be set to null or an instance of Connector'')]\<close>

definition msg :: "string \<Rightarrow> jsval" where
  "msg k = get msg_table k"

text \<open>\<^verbatim>\<open>new ConfigurationError(message, data)\<close>: a missing message becomes the default.\<close>

definition newConfigurationError :: "jsval \<Rightarrow> jsval \<Rightarrow> error" where
  "newConfigurationError m d = ConfigurationError (coalesce m (JStr ''Invalid configuration'')) d"

text \<open>\<^verbatim>\<open>new MissingRepositoryError(repository)\<close>, called with a string only.\<close>

fun newMissingRepositoryError :: "jsval \<Rightarrow> error" where
  "newMissingRepositoryError (JStr r) =
     MissingRepositoryError (JStr (''No repository found with the name '' @ r)) (JStr r)"
| "newMissingRepositoryError v = MissingRepositoryError (JStr ''No repository found with the name '') v"

definition assertCallback :: "jsval \<Rightarrow> error option" where
  "assertCallback callback =
     (if elv callback \<and> \<not> typeof_function callback then Some (TypeError (msg ''argCallback''))
      else None)"

definition validateDatabaseConf :: "string \<Rightarrow> jsval \<Rightarrow> error option" where
  "validateDatabaseConf key dbConf =
     (if \<not> elv dbConf \<or> \<not> isPojo dbConf then
        Some (newConfigurationError (msg ''dbConfPojo'') (JObj [(''key'', JStr key), (''value'', dbConf)]))
      else if \<not> isNonEmptyString (getprop dbConf ''host'') then
        Some (newConfigurationError (msg ''dbConfHostStr'') (JObj [(''key'', JStr key), (''value'', dbConf)]))
      else None)"

text \<open>
  \<^verbatim>\<open>validateConf(conf)\<close>. The merged configuration is always an object (the value of a
  Kibbutz instance), given here by its properties. The table has no \<^verbatim>\<open>noRepositories\<close>
  entry, so that fault carries the default message.
\<close>

definition validateConf :: "props \<Rightarrow> error option" where
  "validateConf conf =
     (if \<not> elv (get conf ''databases'') then
        Some (newConfigurationError (msg ''noDatabases'') (JObj conf))
      else if \<not> isPojo (get conf ''databases'') then
        Some (newConfigurationError (msg ''databasesPojo'') (JObj conf))
      else if \<not> elv (get conf ''repositories'') then
        Some (newConfigurationError (msg ''noRepositories'') (JObj conf))
      else if \<not> isPojo (get conf ''repositories'') then
        Some (newConfigurationError (msg ''reposPojo'') (JObj conf))
      else None)"

section \<open>The connector\<close>

text \<open>
  A pool is what \<^verbatim>\<open>new this._pg.Pool(dbConf)\<close> returns: a new object, known by its
  identity and by the configuration it was constructed with. Identities are handed out
  by a counter kept beside the connector's fields, so that two constructions never give
  the same pool.
\<close>

record pool_handle =
  pool_id :: nat
  pool_conf :: jsval

text \<open>The entries \<^verbatim>\<open>{name, pool}\<close> and \<^verbatim>\<open>{name, pool, databaseName}\<close>.\<close>

record db_entry =
  name :: string
  pool :: pool_handle

record repo_entry = db_entry +
  databaseName :: jsval

text \<open>
  The fields of a \<^verbatim>\<open>Connector\<close>. A JavaScript \<^verbatim>\<open>Map\<close> keeps its keys in insertion
  order and \<^verbatim>\<open>set\<close> overwrites in place, which is \<^const>\<open>AList.update\<close> on an
  association list. \<open>listeners\<close> are the subscriptions of \<^verbatim>\<open>_emitter\<close>.
\<close>

record connector =
  databases :: "(string \<times> db_entry) list"
  repositories :: "(string \<times> repo_entry) list"
  listeners :: "(string \<times> jsval) list"
  next_pool :: nat

definition newConnector :: connector where
  "newConnector = \<lparr>databases = [], repositories = [], listeners = [], next_pool = 0\<rparr>"

text \<open>\<^verbatim>\<open>Map.prototype.has\<close> and \<^verbatim>\<open>get\<close> on a map whose keys are strings.\<close>

fun Map_get :: "(string \<times> 'v) list \<Rightarrow> jsval \<Rightarrow> 'v option" where
  "Map_get m (JStr k) = map_of m k"
| "Map_get m v = None"

definition Map_has :: "(string \<times> 'v) list \<Rightarrow> jsval \<Rightarrow> bool" where
  "Map_has m k \<longleftrightarrow> Map_get m k \<noteq> None"

definition newPool :: "jsval \<Rightarrow> connector \<Rightarrow> pool_handle \<times> connector" where
  "newPool dbConf s =
     (\<lparr>pool_id = next_pool s, pool_conf = dbConf\<rparr>, s\<lparr>next_pool := Suc (next_pool s)\<rparr>)"

definition assertRepo :: "connector \<Rightarrow> jsval \<Rightarrow> error option" where
  "assertRepo s repository =
     (if \<not> isNonEmptyString repository then Some (TypeError (msg ''argRepoStr''))
      else if \<not> Map_has (repositories s) repository then Some (newMissingRepositoryError repository)
      else None)"

subsection \<open>Filling the maps\<close>

text \<open>
  The functions below return the error the source returns (none on success) and the
  connector as the call leaves it. The \<^verbatim>\<open>for\<close> loop over the keys is the recursion on
  the list of keys; each round reads \<^verbatim>\<open>databases[key]\<close> from the whole object.
\<close>

fun fillDatabasesLoop :: "jsval \<Rightarrow> string list \<Rightarrow> connector \<Rightarrow> error option \<times> connector" where
  "fillDatabasesLoop dbs [] s = (None, s)"
| "fillDatabasesLoop dbs (key # keys) s =
     (let dbConf = getprop dbs key in
      case validateDatabaseConf key dbConf of
        Some databaseErr \<Rightarrow> (Some databaseErr, s)
      | None \<Rightarrow>
          (case newPool dbConf s of
             (p, s1) \<Rightarrow>
               fillDatabasesLoop dbs keys
                 (s1\<lparr>databases := AList.update key \<lparr>name = key, pool = p\<rparr> (databases s1)\<rparr>)))"

definition fillDatabasesMap :: "jsval \<Rightarrow> connector \<Rightarrow> error option \<times> connector" where
  "fillDatabasesMap dbs s =
     (let keys = Object_keys dbs in
      if length keys = 0 then (Some (newConfigurationError (msg ''noDatabases'') JUndefined), s)
      else fillDatabasesLoop dbs keys s)"

definition validateRepoConf :: "connector \<Rightarrow> string \<Rightarrow> jsval \<Rightarrow> error option" where
  "validateRepoConf s key repoConf =
     (if \<not> isNonEmptyString repoConf then
        Some (newConfigurationError (msg ''repoConfStr'') (JStr key))
      else if \<not> Map_has (databases s) repoConf then
        Some (newConfigurationError (msg ''repoConfMapping'')
                (JObj [(''key'', JStr key), (''value'', repoConf)]))
      else None)"

text \<open>
  Reading \<^verbatim>\<open>.pool\<close> of a database the map lacks would raise a \<^verbatim>\<open>TypeError\<close>; the
  validation before it excludes that (lemma \<open>validateRepoConf_None\<close> below).
\<close>

fun fillReposLoop :: "jsval \<Rightarrow> string list \<Rightarrow> connector \<Rightarrow> error option \<times> connector" where
  "fillReposLoop repos [] s = (None, s)"
| "fillReposLoop repos (key # keys) s =
     (let repoConf = getprop repos key in
      case validateRepoConf s key repoConf of
        Some repoErr \<Rightarrow> (Some repoErr, s)
      | None \<Rightarrow>
          (case Map_get (databases s) repoConf of
             None \<Rightarrow> (Some (TypeError (JStr ''Cannot read property 'pool' of undefined'')), s)
           | Some db \<Rightarrow>
               fillReposLoop repos keys
                 (s\<lparr>repositories :=
                      AList.update key \<lparr>name = key, pool = pool db, databaseName = repoConf\<rparr>
                        (repositories s)\<rparr>)))"

definition fillReposMap :: "jsval \<Rightarrow> connector \<Rightarrow> error option \<times> connector" where
  "fillReposMap repos s =
     (let keys = Object_keys repos in
      if length keys = 0 then (Some (newConfigurationError (msg ''noRepositories'') JUndefined), s)
      else fillReposLoop repos keys s)"

definition fill :: "props \<Rightarrow> connector \<Rightarrow> error option \<times> connector" where
  "fill conf s =
     (case validateConf conf of
        Some validateErr \<Rightarrow> (Some validateErr, s)
      | None \<Rightarrow>
          (case fillDatabasesMap (get conf ''databases'') s of
             (Some databasesErr, s1) \<Rightarrow> (Some databasesErr, s1)
           | (None, s1) \<Rightarrow> fillReposMap (get conf ''repositories'') s1))"

subsection \<open>Public operations\<close>

text \<open>
  \<^verbatim>\<open>add(...args)\<close>. Kibbutz is a library outside the repository: \<open>kibbutz\<close> stands for
  what a new instance holds as \<^verbatim>\<open>value\<close> after \<^verbatim>\<open>append(vals)\<close>. The result is the
  error thrown (none when the call returns the connector) and the connector afterwards.
\<close>

definition flatten_args :: "jsval list \<Rightarrow> jsval list" where
  "flatten_args args =
     foldl (\<lambda>vals val. case val of JArr xs \<Rightarrow> vals @ xs | _ \<Rightarrow> vals @ [val]) [] args"

definition add :: "(jsval list \<Rightarrow> props) \<Rightarrow> jsval list \<Rightarrow> connector \<Rightarrow> error option \<times> connector" where
  "add kibbutz args s =
     (if length args = 0 then (None, s)
      else fill (kibbutz (flatten_args args)) s)"

definition getPool :: "connector \<Rightarrow> jsval \<Rightarrow> error + pool_handle" where
  "getPool s repository =
     (case assertRepo s repository of
        Some e \<Rightarrow> Inl e
      | None \<Rightarrow>
          (case Map_get (repositories s) repository of
             None \<Rightarrow> Inl (TypeError (JStr ''Cannot read property 'pool' of undefined''))
           | Some repo \<Rightarrow> Inr (pool repo)))"

subsection \<open>Notifications\<close>

text \<open>
  The three events of the connector with what each carries. \<^verbatim>\<open>_emitter\<close> is a Node.js
  \<^verbatim>\<open>EventEmitter\<close>: \<^verbatim>\<open>emit\<close> calls the listeners of the event in the order they
  subscribed, and an \<^verbatim>\<open>'error'\<close> event nobody listens to is thrown by \<^verbatim>\<open>emit\<close> itself.
\<close>

datatype event = ConfigEvent jsval | DoneEvent jsval | ErrorEvent error

fun event_name :: "event \<Rightarrow> string" where
  "event_name (ConfigEvent fragment) = ''config''"
| "event_name (DoneEvent conf) = ''done''"
| "event_name (ErrorEvent e) = ''error''"

definition deliver :: "connector \<Rightarrow> event \<Rightarrow> (jsval \<times> event) list" where
  "deliver s ev = map (\<lambda>(n, l). (l, ev)) (filter (\<lambda>(n, l). n = event_name ev) (listeners s))"


fun js_append :: "jsval \<Rightarrow> string \<Rightarrow> jsval" where
  "js_append (JStr a) b = JStr (a @ b)"
| "js_append v b = v"

definition on :: "jsval \<Rightarrow> jsval \<Rightarrow> connector \<Rightarrow> error + connector" where
  "on eventName listener s =
     (case eventName of
        JStr n \<Rightarrow>
          if length n = 0 then Inl (TypeError (msg ''argEventNameStr''))
          else if \<not> typeof_function listener then Inl (TypeError (msg ''argListenerFn''))
          else if n \<noteq> ''config'' \<and> n \<noteq> ''done'' \<and> n \<noteq> ''error'' then
            Inl (JsError (js_append (msg ''argUnknownEventName'') n))
          else Inr (s\<lparr>listeners := listeners s @ [(n, listener)]\<rparr>)
      | _ \<Rightarrow> Inl (TypeError (msg ''argEventNameStr'')))"

subsection \<open>Asynchronous operations\<close>

text \<open>
  What an asynchronous call has done once its callbacks have run: the state of the
  promise it returned, the calls made to the caller's callback, and the listeners
  notified. A promise whose executor throws is rejected with what was thrown.
\<close>

datatype 'a promise = Pending | Resolved 'a | Rejected error

record ('a, 'c) async_result =
  promise :: "'a promise"
  calls :: "'c list"
  notified :: "(jsval \<times> event) list"






text \<open>
  \<^verbatim>\<open>load(providers, value, callback)\<close>. \<open>rest\<close> are the arguments after
  \<^verbatim>\<open>providers\<close>. \<open>kibbutz_load\<close> stands for Kibbutz's \<^verbatim>\<open>load\<close> on the providers with
  the options given: the fragments it announces and the error or merged object it calls
  back with. The promise resolves with the connector itself.
\<close>

record aggregation =
  fragments :: "jsval list"
  outcome :: "error + props"

datatype load_args = LoadErr error | LoadOk

definition arg :: "jsval list \<Rightarrow> nat \<Rightarrow> jsval" where
  "arg xs i = (if i < length xs then xs ! i else JUndefined)"

text \<open>
  The function \<^verbatim>\<open>load\<close> hands to Kibbutz: called with the error or the merged object
  once the providers are through, \<open>told\<close> being the listeners told of a fragment so far.
\<close>

definition loadCallback ::
  "jsval \<Rightarrow> (jsval \<times> event) list \<Rightarrow> error + props \<Rightarrow> connector
     \<Rightarrow> (unit, load_args) async_result \<times> connector"
where
  "loadCallback cbfn told res s =
     (case res of
        Inl err \<Rightarrow>
          (\<lparr>promise = Rejected err,
            calls = (if elv cbfn then [LoadErr err] else []),
            notified = told\<rparr>, s)
      | Inr conf \<Rightarrow>
          (case fill conf s of
             (Some fillErr, s1) \<Rightarrow>
               (\<lparr>promise = Rejected fillErr,
                 calls = (if elv cbfn then [LoadErr fillErr] else []),
                 notified = told\<rparr>, s1)
           | (None, s1) \<Rightarrow>
               (\<lparr>promise = Resolved (),
                 calls = (if elv cbfn then [LoadOk] else []),
                 notified = told @ deliver s1 (DoneEvent (JObj conf))\<rparr>, s1)))"

definition load ::
  "(jsval list \<Rightarrow> jsval \<Rightarrow> aggregation) \<Rightarrow> jsval \<Rightarrow> jsval list \<Rightarrow> connector
     \<Rightarrow> error + ((unit, load_args) async_result \<times> connector)"
where
  "load kibbutz_load providers rest s =
     (case providers of
        JArr ps \<Rightarrow>
          if length ps = 0 then Inl (TypeError (msg ''argProvidersLen''))
          else
            (let (val, cbfn) =
                   (if length rest = 1 \<and> typeof_function (arg rest 0) then (JUndefined, arg rest 0)
                    else (arg rest 0, arg rest 1))
             in case assertCallback cbfn of
                  Some e \<Rightarrow> Inl e
                | None \<Rightarrow>
                    (let options = (if elv val then JObj [(''value'', val)] else JUndefined);
                         agg = kibbutz_load ps options;
                         told = concat (map (\<lambda>fragment. deliver s (ConfigEvent fragment)) (fragments agg))
                     in Inr (loadCallback cbfn told (outcome agg) s)))
      | _ \<Rightarrow> Inl (TypeError (msg ''argProvidersArray'')))"

section \<open>Notions used in the statements\<close>

text \<open>The first error of a sequence of checks run in order: the first failure wins.\<close>

fun firstErr :: "error option list \<Rightarrow> error option" where
  "firstErr [] = None"
| "firstErr (Some e # es) = Some e"
| "firstErr (None # es) = firstErr es"

text \<open>A configuration fault is an instance of \<^verbatim>\<open>ConfigurationError\<close>.\<close>

definition is_ConfigurationError :: "error \<Rightarrow> bool" where
  "is_ConfigurationError e = (case e of ConfigurationError m d \<Rightarrow> True | _ \<Rightarrow> False)"

text \<open>Every repository entry names a database the connector has an entry for.\<close>

definition registry_inv :: "connector \<Rightarrow> bool" where
  "registry_inv s = list_all (\<lambda>(r, e). Map_has (databases s) (databaseName e)) (repositories s)"

text \<open>
  Every pool held by an entry was constructed before now: its identity is below the
  counter. It holds of a new connector and every fill keeps it (lemmas
  \<open>pools_allocated_newConnector\<close> and \<open>fill_allocated\<close>).
\<close>

definition pools_allocated :: "connector \<Rightarrow> bool" where
  "pools_allocated s \<longleftrightarrow>
     list_all (\<lambda>(k, e). pool_id (pool e) < next_pool s) (databases s)
     \<and> list_all (\<lambda>(r, e). pool_id (pool e) < next_pool s) (repositories s)"

section \<open>Fixtures\<close>



text \<open>
  Kibbutz on one fragment: appending a single object to a new instance leaves that
  object's properties as the value. Likewise a load that announces one fragment and calls
  back with it.
\<close>

definition kibbutz_single :: "jsval list \<Rightarrow> props" where
  "kibbutz_single vals = (case vals of [JObj ps] \<Rightarrow> ps | _ \<Rightarrow> [])"

definition kibbutz_load_value :: "props \<Rightarrow> jsval list \<Rightarrow> jsval \<Rightarrow> aggregation" where
  "kibbutz_load_value conf ps options = \<lparr>fragments = [JObj conf], outcome = Inr conf\<rparr>"

text \<open>Configurations in the manner of the tests.\<close>

definition localhost :: jsval where
  "localhost = JObj [(''host'', JStr ''127.0.0.1'')]"

definition snapshot_primary :: props where
  "snapshot_primary =
     [(''databases'', JObj [(''primary'', localhost)]),
      (''repositories'', JObj [(''test'', JStr ''primary'')])]"

definition snapshot_second_database_invalid :: props where
  "snapshot_second_database_invalid =
     [(''databases'', JObj [(''a'', localhost), (''b'', JObj [(''host'', JStr [])])]),
      (''repositories'', JObj [(''r'', JStr ''a'')])]"

definition snapshot_unnamed_repository :: props where
  "snapshot_unnamed_repository =
     [(''databases'', JObj [(''primary'', localhost)]),
      (''repositories'', JObj [([], JStr ''primary'')])]"

definition snapshot_invalid_database_no_repositories :: props where
  "snapshot_invalid_database_no_repositories =
     [(''databases'', JObj [(''primary'', JObj [(''host'', JStr [])])])]"

definition snapshot_other_database :: props where
  "snapshot_other_database =
     [(''databases'', JObj [(''secondary'', localhost)]),
      (''repositories'', JObj [(''orders'', JStr ''primary'')])]"

definition snapshot_dangling :: props where
  "snapshot_dangling =
     [(''databases'', JObj [(''primary'', localhost)]),
      (''repositories'', JObj [(''test'', JStr ''blorg'')])]"

definition snapshot_readd :: props where
  "snapshot_readd =
     [(''databases'', JObj [(''primary'', localhost)]),
      (''repositories'', JObj [(''orders'', JStr ''primary'')])]"

definition snapshot_no_repositories :: props where
  "snapshot_no_repositories =
     [(''databases'', JObj [(''primary'', localhost)]), (''repositories'', JObj [])]"

section \<open>Lemmas about the fill functions\<close>

lemma newConfigurationError_is [simp]: "is_ConfigurationError (newConfigurationError m d)"
  by (simp add: newConfigurationError_def is_ConfigurationError_def)

lemma validateDatabaseConf_CE:
  "validateDatabaseConf k v = Some e \<Longrightarrow> is_ConfigurationError e"
  by (auto simp: validateDatabaseConf_def split: if_splits)

lemma validateRepoConf_CE:
  "validateRepoConf s k v = Some e \<Longrightarrow> is_ConfigurationError e"
  by (auto simp: validateRepoConf_def split: if_splits)

lemma validateConf_CE:
  "validateConf conf = Some e \<Longrightarrow> is_ConfigurationError e"
  by (auto simp: validateConf_def split: if_splits)

lemma validateRepoConf_None:
  "validateRepoConf s k v = None \<longleftrightarrow> isNonEmptyString v \<and> Map_get (databases s) v \<noteq> None"
  by (auto simp: validateRepoConf_def Map_has_def)

lemma validateRepoConf_databases:
  "databases s1 = databases s2 \<Longrightarrow> validateRepoConf s1 k v = validateRepoConf s2 k v"
  by (simp add: validateRepoConf_def)

subsection \<open>The loop over the databases\<close>

lemma fillDatabasesLoop_frame:
  "fillDatabasesLoop dbs keys s = (res, s') \<Longrightarrow>
     repositories s' = repositories s \<and> listeners s' = listeners s \<and> next_pool s \<le> next_pool s'"
proof (induction keys arbitrary: s)
  case Nil
  then show ?case by simp
next
  case (Cons k keys)
  show ?case
  proof (cases "validateDatabaseConf k (getprop dbs k)")
    case None
    with Cons.prems Cons.IH[of "(snd (newPool (getprop dbs k) s))\<lparr>databases := AList.update k \<lparr>name = k, pool = fst (newPool (getprop dbs k) s)\<rparr> (databases (snd (newPool (getprop dbs k) s)))\<rparr>"]
    show ?thesis by (simp add: newPool_def)
  next
    case (Some e)
    with Cons.prems show ?thesis by simp
  qed
qed

lemma fillDatabasesLoop_other:
  "fillDatabasesLoop dbs keys s = (res, s') \<Longrightarrow> k \<notin> set keys \<Longrightarrow>
     map_of (databases s') k = map_of (databases s) k"
proof (induction keys arbitrary: s)
  case Nil
  then show ?case by simp
next
  case (Cons k' keys)
  then show ?case
    by (cases "validateDatabaseConf k' (getprop dbs k')")
       (auto simp: newPool_def update_conv')
qed

lemma fillDatabasesLoop_dom:
  "fillDatabasesLoop dbs keys s = (res, s') \<Longrightarrow> map_of (databases s) k \<noteq> None \<Longrightarrow>
     map_of (databases s') k \<noteq> None"
proof (induction keys arbitrary: s)
  case Nil
  then show ?case by simp
next
  case (Cons k' keys)
  then show ?case
    by (cases "validateDatabaseConf k' (getprop dbs k')")
       (auto simp: newPool_def update_conv')
qed

lemma fillDatabasesLoop_err:
  "fst (fillDatabasesLoop dbs keys s) = firstErr (map (\<lambda>k. validateDatabaseConf k (getprop dbs k)) keys)"
proof (induction keys arbitrary: s)
  case Nil
  then show ?case by simp
next
  case (Cons k' keys)
  then show ?case
    by (cases "validateDatabaseConf k' (getprop dbs k')")
       (auto simp: newPool_def)
qed

lemma firstErr_None: "firstErr es = None \<longleftrightarrow> (\<forall>e \<in> set es. e = None)"
  by (induction es rule: firstErr.induct) auto

lemma fillDatabasesLoop_stored:
  "fillDatabasesLoop dbs keys s = (None, s') \<Longrightarrow> k \<in> set keys \<Longrightarrow>
     \<exists>p. map_of (databases s') k = Some \<lparr>name = k, pool = p\<rparr> \<and> pool_conf p = getprop dbs k
        \<and> next_pool s \<le> pool_id p \<and> pool_id p < next_pool s'"
proof (induction keys arbitrary: s)
  case Nil
  then show ?case by simp
next
  case (Cons k' keys)
  from Cons.prems(1) have v: "validateDatabaseConf k' (getprop dbs k') = None"
    by (cases "validateDatabaseConf k' (getprop dbs k')") auto
  define s1 where "s1 = s\<lparr>next_pool := Suc (next_pool s),
     databases := AList.update k' \<lparr>name = k', pool = \<lparr>pool_id = next_pool s, pool_conf = getprop dbs k'\<rparr>\<rparr> (databases s)\<rparr>"
  from Cons.prems(1) v have run: "fillDatabasesLoop dbs keys s1 = (None, s')"
    by (simp add: newPool_def s1_def)
  show ?case
  proof (cases "k \<in> set keys")
    case True
    from Cons.IH[OF run True] show ?thesis by (auto simp: s1_def)
  next
    case False
    with Cons.prems(2) have kk: "k = k'" by simp
    from fillDatabasesLoop_other[OF run False] fillDatabasesLoop_frame[OF run]
    show ?thesis by (auto simp: s1_def kk update_conv')
  qed
qed

subsection \<open>The loop over the repositories\<close>

lemma fillReposLoop_frame:
  "fillReposLoop repos keys s = (res, s') \<Longrightarrow>
     databases s' = databases s \<and> listeners s' = listeners s \<and> next_pool s' = next_pool s"
proof (induction keys arbitrary: s)
  case Nil
  then show ?case by simp
next
  case (Cons k keys)
  then show ?case
    by (cases "validateRepoConf s k (getprop repos k)";
        cases "Map_get (databases s) (getprop repos k)") auto
qed

lemma fillReposLoop_other:
  "fillReposLoop repos keys s = (res, s') \<Longrightarrow> k \<notin> set keys \<Longrightarrow>
     map_of (repositories s') k = map_of (repositories s) k"
proof (induction keys arbitrary: s)
  case Nil
  then show ?case by simp
next
  case (Cons k' keys)
  then show ?case
    by (cases "validateRepoConf s k' (getprop repos k')";
        cases "Map_get (databases s) (getprop repos k')")
       (auto simp: update_conv')
qed

lemma fillReposLoop_err:
  "fst (fillReposLoop repos keys s) = firstErr (map (\<lambda>k. validateRepoConf s k (getprop repos k)) keys)"
proof (induction keys arbitrary: s)
  case Nil
  then show ?case by simp
next
  case (Cons k' keys)
  show ?case
  proof (cases "validateRepoConf s k' (getprop repos k')")
    case None
    then obtain db where db: "Map_get (databases s) (getprop repos k') = Some db"
      by (auto simp: validateRepoConf_None)
    let ?s1 = "s\<lparr>repositories := AList.update k' \<lparr>name = k', pool = pool db, databaseName = getprop repos k'\<rparr> (repositories s)\<rparr>"
    have "\<And>k v. validateRepoConf ?s1 k v = validateRepoConf s k v"
      by (rule validateRepoConf_databases) simp
    with None db Cons.IH[of ?s1] show ?thesis by simp
  next
    case (Some e)
    then show ?thesis by simp
  qed
qed

lemma fillReposLoop_stored:
  "fillReposLoop repos keys s = (None, s') \<Longrightarrow> k \<in> set keys \<Longrightarrow>
     \<exists>db. Map_get (databases s) (getprop repos k) = Some db \<and> isNonEmptyString (getprop repos k) \<and>
       map_of (repositories s') k = Some \<lparr>name = k, pool = pool db, databaseName = getprop repos k\<rparr>"
proof (induction keys arbitrary: s)
  case Nil
  then show ?case by simp
next
  case (Cons k' keys)
  from Cons.prems(1) have v: "validateRepoConf s k' (getprop repos k') = None"
    by (cases "validateRepoConf s k' (getprop repos k')") auto
  then obtain db where db: "Map_get (databases s) (getprop repos k') = Some db"
    and ne: "isNonEmptyString (getprop repos k')"
    by (auto simp: validateRepoConf_None)
  define s1 where "s1 = s\<lparr>repositories := AList.update k' \<lparr>name = k', pool = pool db, databaseName = getprop repos k'\<rparr> (repositories s)\<rparr>"
  from Cons.prems(1) v db have run: "fillReposLoop repos keys s1 = (None, s')"
    by (simp add: s1_def)
  show ?case
  proof (cases "k \<in> set keys")
    case True
    from Cons.IH[OF run True] show ?thesis by (auto simp: s1_def)
  next
    case False
    with Cons.prems(2) have kk: "k = k'" by simp
    from fillReposLoop_other[OF run False] db ne
    show ?thesis by (auto simp: s1_def kk update_conv')
  qed
qed

lemma fillReposLoop_invalid_untouched:
  "fillReposLoop repos keys s = (res, s') \<Longrightarrow> validateRepoConf s r (getprop repos r) \<noteq> None \<Longrightarrow>
     map_of (repositories s') r = map_of (repositories s) r"
proof (induction keys arbitrary: s)
  case Nil
  then show ?case by simp
next
  case (Cons k' keys)
  show ?case
  proof (cases "validateRepoConf s k' (getprop repos k')")
    case None
    then obtain db where db: "Map_get (databases s) (getprop repos k') = Some db"
      by (auto simp: validateRepoConf_None)
    let ?s1 = "s\<lparr>repositories := AList.update k' \<lparr>name = k', pool = pool db, databaseName = getprop repos k'\<rparr> (repositories s)\<rparr>"
    have same: "\<And>k v. validateRepoConf ?s1 k v = validateRepoConf s k v"
      by (rule validateRepoConf_databases) simp
    from None Cons.prems(2) have ne: "r \<noteq> k'" by auto
    from Cons.prems(1) None db have run: "fillReposLoop repos keys ?s1 = (res, s')" by simp
    from Cons.IH[OF run] Cons.prems(2) same have "map_of (repositories s') r = map_of (repositories ?s1) r"
      by simp
    with ne show ?thesis by (simp add: update_conv')
  next
    case (Some e)
    with Cons.prems(1) show ?thesis by simp
  qed
qed

lemma fillDatabasesLoop_prefix:
  "fillDatabasesLoop dbs keys s = (Some e, s') \<Longrightarrow>
     \<exists>n<length keys. fillDatabasesLoop dbs (take n keys) s = (None, s')
        \<and> validateDatabaseConf (keys ! n) (getprop dbs (keys ! n)) = Some e"
proof (induction keys arbitrary: s)
  case Nil
  then show ?case by simp
next
  case (Cons k keys)
  show ?case
  proof (cases "validateDatabaseConf k (getprop dbs k)")
    case None
    let ?s1 = "s\<lparr>next_pool := Suc (next_pool s),
      databases := AList.update k \<lparr>name = k, pool = \<lparr>pool_id = next_pool s, pool_conf = getprop dbs k\<rparr>\<rparr> (databases s)\<rparr>"
    from Cons.prems None have run: "fillDatabasesLoop dbs keys ?s1 = (Some e, s')"
      by (simp add: newPool_def)
    from Cons.IH[OF run] obtain n where n: "n < length keys"
      "fillDatabasesLoop dbs (take n keys) ?s1 = (None, s')"
      "validateDatabaseConf (keys ! n) (getprop dbs (keys ! n)) = Some e" by blast
    from n None have "Suc n < length (k # keys) \<and> fillDatabasesLoop dbs (take (Suc n) (k # keys)) s = (None, s')
        \<and> validateDatabaseConf ((k # keys) ! Suc n) (getprop dbs ((k # keys) ! Suc n)) = Some e"
      by (simp add: newPool_def)
    then show ?thesis by blast
  next
    case (Some e0)
    with Cons.prems have "0 < length (k # keys) \<and> fillDatabasesLoop dbs (take 0 (k # keys)) s = (None, s')
        \<and> validateDatabaseConf ((k # keys) ! 0) (getprop dbs ((k # keys) ! 0)) = Some e"
      by simp
    then show ?thesis by blast
  qed
qed

lemma fillReposLoop_prefix:
  "fillReposLoop repos keys s = (Some e, s') \<Longrightarrow>
     \<exists>n<length keys. fillReposLoop repos (take n keys) s = (None, s')
        \<and> validateRepoConf s (keys ! n) (getprop repos (keys ! n)) = Some e"
proof (induction keys arbitrary: s)
  case Nil
  then show ?case by simp
next
  case (Cons k keys)
  show ?case
  proof (cases "validateRepoConf s k (getprop repos k)")
    case None
    then obtain db where db: "Map_get (databases s) (getprop repos k) = Some db"
      by (auto simp: validateRepoConf_None)
    let ?s1 = "s\<lparr>repositories := AList.update k \<lparr>name = k, pool = pool db, databaseName = getprop repos k\<rparr> (repositories s)\<rparr>"
    have same: "\<And>k v. validateRepoConf ?s1 k v = validateRepoConf s k v"
      by (rule validateRepoConf_databases) simp
    from Cons.prems None db have run: "fillReposLoop repos keys ?s1 = (Some e, s')"
      by simp
    from Cons.IH[OF run] same obtain n where n: "n < length keys"
      "fillReposLoop repos (take n keys) ?s1 = (None, s')"
      "validateRepoConf s (keys ! n) (getprop repos (keys ! n)) = Some e" by auto
    from n None db have "Suc n < length (k # keys) \<and> fillReposLoop repos (take (Suc n) (k # keys)) s = (None, s')
        \<and> validateRepoConf s ((k # keys) ! Suc n) (getprop repos ((k # keys) ! Suc n)) = Some e"
      by simp
    then show ?thesis by blast
  next
    case (Some e0)
    with Cons.prems have "0 < length (k # keys) \<and> fillReposLoop repos (take 0 (k # keys)) s = (None, s')
        \<and> validateRepoConf s ((k # keys) ! 0) (getprop repos ((k # keys) ! 0)) = Some e"
      by simp
    then show ?thesis by blast
  qed
qed

lemma fillDatabasesLoop_CE:
  "fillDatabasesLoop dbs keys s = (Some e, s') \<Longrightarrow> is_ConfigurationError e"
  by (blast dest: fillDatabasesLoop_prefix validateDatabaseConf_CE)

lemma fillReposLoop_CE:
  "fillReposLoop repos keys s = (Some e, s') \<Longrightarrow> is_ConfigurationError e"
  by (blast dest: fillReposLoop_prefix validateRepoConf_CE)

lemma fillDatabasesLoop_next_pool:
  "fillDatabasesLoop dbs keys s = (None, s') \<Longrightarrow> next_pool s' = next_pool s + length keys"
proof (induction keys arbitrary: s)
  case Nil
  then show ?case by simp
next
  case (Cons k keys)
  from Cons.prems have v: "validateDatabaseConf k (getprop dbs k) = None"
    by (cases "validateDatabaseConf k (getprop dbs k)") auto
  let ?s1 = "s\<lparr>next_pool := Suc (next_pool s),
     databases := AList.update k \<lparr>name = k, pool = \<lparr>pool_id = next_pool s, pool_conf = getprop dbs k\<rparr>\<rparr> (databases s)\<rparr>"
  from Cons.prems v have "fillDatabasesLoop dbs keys ?s1 = (None, s')"
    by (simp add: newPool_def)
  from Cons.IH[OF this] show ?case by simp
qed

lemma fillDatabasesLoop_prefix_stored:
  assumes "fillDatabasesLoop dbs (take n keys) s = (None, s')" and "n \<le> length keys" and "i < n"
  shows "\<exists>p. map_of (databases s') (keys ! i) = Some \<lparr>name = keys ! i, pool = p\<rparr>
           \<and> next_pool s \<le> pool_id p"
proof -
  from assms(2,3) have "keys ! i \<in> set (take n keys)"
    by (metis in_set_conv_nth length_take min.absorb2 nth_take)
  from fillDatabasesLoop_stored[OF assms(1) this] show ?thesis by blast
qed

lemma fillReposLoop_prefix_stored:
  assumes "fillReposLoop repos (take n keys) s = (None, s')" and "n \<le> length keys" and "i < n"
  shows "\<exists>db. Map_get (databases s) (getprop repos (keys ! i)) = Some db
           \<and> map_of (repositories s') (keys ! i)
               = Some \<lparr>name = keys ! i, pool = pool db, databaseName = getprop repos (keys ! i)\<rparr>"
proof -
  from assms(2,3) have "keys ! i \<in> set (take n keys)"
    by (metis in_set_conv_nth length_take min.absorb2 nth_take)
  from fillReposLoop_stored[OF assms(1) this] show ?thesis by blast
qed

subsection \<open>How a fill ends\<close>

text \<open>The five ways it ends with an error, and the one way it succeeds.\<close>

lemma fill_Some_cases:
  assumes "fill conf s = (Some e, s')"
  obtains (top) "validateConf conf = Some e" "s' = s"
  | (nodb) "validateConf conf = None" "Object_keys (get conf ''databases'') = []"
      "e = newConfigurationError (msg ''noDatabases'') JUndefined" "s' = s"
  | (db) "validateConf conf = None" "Object_keys (get conf ''databases'') \<noteq> []"
      "fillDatabasesLoop (get conf ''databases'') (Object_keys (get conf ''databases'')) s = (Some e, s')"
  | (norepo) s1 where "validateConf conf = None" "Object_keys (get conf ''databases'') \<noteq> []"
      "fillDatabasesLoop (get conf ''databases'') (Object_keys (get conf ''databases'')) s = (None, s1)"
      "Object_keys (get conf ''repositories'') = []"
      "e = newConfigurationError (msg ''noRepositories'') JUndefined" "s' = s1"
  | (repo) s1 where "validateConf conf = None" "Object_keys (get conf ''databases'') \<noteq> []"
      "fillDatabasesLoop (get conf ''databases'') (Object_keys (get conf ''databases'')) s = (None, s1)"
      "Object_keys (get conf ''repositories'') \<noteq> []"
      "fillReposLoop (get conf ''repositories'') (Object_keys (get conf ''repositories'')) s1 = (Some e, s')"
  using assms
  by (auto simp: fill_def fillDatabasesMap_def fillReposMap_def Let_def
           split: option.splits if_splits prod.splits)

lemma fill_None:
  assumes "fill conf s = (None, s')"
  obtains s1 where "validateConf conf = None" "Object_keys (get conf ''databases'') \<noteq> []"
      "fillDatabasesLoop (get conf ''databases'') (Object_keys (get conf ''databases'')) s = (None, s1)"
      "Object_keys (get conf ''repositories'') \<noteq> []"
      "fillReposLoop (get conf ''repositories'') (Object_keys (get conf ''repositories'')) s1 = (None, s')"
  using assms
  by (auto simp: fill_def fillDatabasesMap_def fillReposMap_def Let_def
           split: option.splits if_splits prod.splits)

lemma fill_CE: "fill conf s = (Some e, s') \<Longrightarrow> is_ConfigurationError e"
  by (erule fill_Some_cases)
     (auto dest: validateConf_CE fillDatabasesLoop_CE fillReposLoop_CE)

lemma fill_other_database:
  assumes "fill conf s = (res, s')" "k \<notin> set (Object_keys (get conf ''databases''))"
  shows "map_of (databases s') k = map_of (databases s) k"
proof (cases res)
  case None
  with assms(1) have "fill conf s = (None, s')" by simp
  then show ?thesis
    by (rule fill_None)
       (auto dest!: fillReposLoop_frame dest: fillDatabasesLoop_other[OF _ assms(2)])
next
  case (Some e)
  with assms(1) have "fill conf s = (Some e, s')" by simp
  then show ?thesis
    by (cases rule: fill_Some_cases)
       (auto dest!: fillReposLoop_frame dest: fillDatabasesLoop_other[OF _ assms(2)])
qed

lemma fill_other_repository:
  assumes "fill conf s = (res, s')" "r \<notin> set (Object_keys (get conf ''repositories''))"
  shows "map_of (repositories s') r = map_of (repositories s) r"
proof (cases res)
  case None
  with assms(1) have "fill conf s = (None, s')" by simp
  then show ?thesis
    by (rule fill_None)
       (auto dest!: fillDatabasesLoop_frame dest: fillReposLoop_other[OF _ assms(2)])
next
  case (Some e)
  with assms(1) have "fill conf s = (Some e, s')" by simp
  then show ?thesis
    by (cases rule: fill_Some_cases)
       (auto dest!: fillDatabasesLoop_frame dest: fillReposLoop_other[OF _ assms(2)])
qed

subsection \<open>Evaluation at the fixtures\<close>

lemmas eval_defs = fill_def validateConf_def get_def isPojo_def fillDatabasesMap_def fillReposMap_def
  validateDatabaseConf_def validateRepoConf_def newPool_def newConnector_def newConfigurationError_def
  msg_def msg_table_def coalesce_def Map_has_def Let_def add_def flatten_args_def kibbutz_single_def
  localhost_def getPool_def assertRepo_def is_ConfigurationError_def

lemmas snapshot_defs = snapshot_primary_def snapshot_unnamed_repository_def
  snapshot_invalid_database_no_repositories_def snapshot_other_database_def

lemma getPool_stored:
  "map_of (repositories s) r = Some e \<Longrightarrow> r \<noteq> [] \<Longrightarrow> getPool s (JStr r) = Inr (pool e)"
  by (simp add: getPool_def assertRepo_def Map_has_def)

subsection \<open>The order of the checks\<close>

lemma validateConf_firstErr:
  "validateConf conf = firstErr
     [if \<not> elv (get conf ''databases'') then Some (newConfigurationError (msg ''noDatabases'') (JObj conf)) else None,
      if \<not> isPojo (get conf ''databases'') then Some (newConfigurationError (msg ''databasesPojo'') (JObj conf)) else None,
      if \<not> elv (get conf ''repositories'') then Some (newConfigurationError (msg ''noRepositories'') (JObj conf)) else None,
      if \<not> isPojo (get conf ''repositories'') then Some (newConfigurationError (msg ''reposPojo'') (JObj conf)) else None]"
  by (simp add: validateConf_def)

lemma firstErr_append:
  "firstErr (xs @ ys) = (case firstErr xs of Some e \<Rightarrow> Some e | None \<Rightarrow> firstErr ys)"
  by (induction xs rule: firstErr.induct) auto

lemma fill_err:
  "fst (fill conf s) =
     (case validateConf conf of Some e \<Rightarrow> Some e | None \<Rightarrow>
      (case firstErr ((if Object_keys (get conf ''databases'') = []
                       then Some (newConfigurationError (msg ''noDatabases'') JUndefined) else None)
                      # map (\<lambda>k. validateDatabaseConf k (getprop (get conf ''databases'') k))
                            (Object_keys (get conf ''databases''))) of
         Some e \<Rightarrow> Some e
       | None \<Rightarrow>
           firstErr ((if Object_keys (get conf ''repositories'') = []
                      then Some (newConfigurationError (msg ''noRepositories'') JUndefined) else None)
                     # map (\<lambda>r. validateRepoConf (snd (fillDatabasesMap (get conf ''databases'') s)) r
                                   (getprop (get conf ''repositories'') r))
                           (Object_keys (get conf ''repositories'')))))"
proof (cases "validateConf conf")
  case (Some e)
  then show ?thesis by (simp add: fill_def)
next
  case None
  show ?thesis
  proof (cases "Object_keys (get conf ''databases'') = []")
    case True
    with None show ?thesis by (simp add: fill_def fillDatabasesMap_def)
  next
    case False
    obtain r1 s1 where run: "fillDatabasesLoop (get conf ''databases'') (Object_keys (get conf ''databases'')) s = (r1, s1)"
      by (cases "fillDatabasesLoop (get conf ''databases'') (Object_keys (get conf ''databases'')) s")
    from fillDatabasesLoop_err[of "get conf ''databases''" "Object_keys (get conf ''databases'')" s] run
    have r1: "firstErr (map (\<lambda>k. validateDatabaseConf k (getprop (get conf ''databases'') k))
                            (Object_keys (get conf ''databases''))) = r1" by simp
    show ?thesis
    proof (cases r1)
      case (Some e)
      with None False run r1 show ?thesis by (simp add: fill_def fillDatabasesMap_def)
    next
      case N: None
      show ?thesis
      proof (cases "Object_keys (get conf ''repositories'') = []")
        case True
        with None False run r1 N show ?thesis by (simp add: fill_def fillDatabasesMap_def fillReposMap_def)
      next
        case F2: False
        with None False run r1 N
          fillReposLoop_err[of "get conf ''repositories''" "Object_keys (get conf ''repositories'')" s1]
        show ?thesis by (simp add: fill_def fillDatabasesMap_def fillReposMap_def)
      qed
    qed
  qed
qed

subsection \<open>Invariants\<close>

lemma set_update_subset: "set (AList.update k v al) \<subseteq> insert (k, v) (set al)"
  by (induction al) auto

lemma Map_has_JStr: "Map_has m d \<Longrightarrow> \<exists>k. d = JStr k \<and> map_of m k \<noteq> None"
  by (cases d) (auto simp: Map_has_def)

lemma fillDatabasesLoop_inv:
  assumes "fillDatabasesLoop dbs keys s = (res, s')" "registry_inv s"
  shows "registry_inv s'"
proof -
  have "Map_has (databases s') d" if "Map_has (databases s) d" for d
  proof -
    from Map_has_JStr[OF that] obtain k where k: "d = JStr k" "map_of (databases s) k \<noteq> None" by blast
    from fillDatabasesLoop_dom[OF assms(1) k(2)] k(1) show ?thesis by (simp add: Map_has_def)
  qed
  with assms(2) fillDatabasesLoop_frame[OF assms(1)] show ?thesis
    by (auto simp: registry_inv_def list_all_iff)
qed

lemma fillReposLoop_inv:
  "fillReposLoop repos keys s = (res, s') \<Longrightarrow> registry_inv s \<Longrightarrow> registry_inv s'"
proof (induction keys arbitrary: s)
  case Nil
  then show ?case by simp
next
  case (Cons k keys)
  show ?case
  proof (cases "validateRepoConf s k (getprop repos k)")
    case None
    then obtain db where db: "Map_get (databases s) (getprop repos k) = Some db"
      by (auto simp: validateRepoConf_None)
    let ?e = "\<lparr>name = k, pool = pool db, databaseName = getprop repos k\<rparr>"
    let ?s1 = "s\<lparr>repositories := AList.update k ?e (repositories s)\<rparr>"
    from Cons.prems(1) None db have run: "fillReposLoop repos keys ?s1 = (res, s')" by simp
    from db have "Map_has (databases s) (getprop repos k)" by (simp add: Map_has_def)
    with Cons.prems(2) set_update_subset[of k ?e "repositories s"] have "registry_inv ?s1"
      by (auto simp: registry_inv_def list_all_iff)
    from Cons.IH[OF run this] show ?thesis .
  next
    case (Some e)
    with Cons.prems show ?thesis by simp
  qed
qed

lemma fill_inv:
  assumes "registry_inv s" shows "registry_inv (snd (fill conf s))"
proof -
  obtain res s' where f: "fill conf s = (res, s')" by (cases "fill conf s")
  have "registry_inv s'"
  proof (cases res)
    case None
    with f have "fill conf s = (None, s')" by simp
    then show ?thesis
      by (rule fill_None) (blast intro: fillDatabasesLoop_inv fillReposLoop_inv assms)
  next
    case (Some e)
    with f have "fill conf s = (Some e, s')" by simp
    then show ?thesis
      by (cases rule: fill_Some_cases)
         (auto intro: assms fillDatabasesLoop_inv[OF _ assms]
               dest: fillReposLoop_inv[OF _ fillDatabasesLoop_inv[OF _ assms]])
  qed
  with f show ?thesis by simp
qed

lemma load_loadCallback:
  "load kl providers rest s = Inr res \<Longrightarrow>
     \<exists>ps cbfn options. providers = JArr ps \<and> ps \<noteq> [] \<and> assertCallback cbfn = None
       \<and> res = loadCallback cbfn
                 (concat (map (\<lambda>fragment. deliver s (ConfigEvent fragment)) (fragments (kl ps options))))
                 (outcome (kl ps options)) s"
  by (cases providers)
     (auto simp: load_def Let_def split: if_splits option.splits prod.splits)

lemma loadCallback_state:
  "snd (loadCallback cbfn told res s) = (case res of Inl err \<Rightarrow> s | Inr conf \<Rightarrow> snd (fill conf s))"
  by (simp add: loadCallback_def split: sum.splits option.splits prod.splits)

lemma load_state:
  assumes "load kl providers rest s = Inr (out, s')"
  shows "s' = s \<or> (\<exists>conf. s' = snd (fill conf s))"
proof -
  from load_loadCallback[OF assms] obtain cbfn told res where
    "(out, s') = loadCallback cbfn told res s" by blast
  then have "s' = snd (loadCallback cbfn told res s)" by (metis snd_conv)
  then show ?thesis unfolding loadCallback_state by (cases res) auto
qed

lemma fill_dangling:
  assumes "fill conf s = (res, s')"
    and "r \<in> set (Object_keys (get conf ''repositories''))"
    and "\<not> Map_has (databases s') (getprop (get conf ''repositories'') r)"
  shows "(\<exists>e. res = Some e \<and> is_ConfigurationError e)
       \<and> map_of (repositories s') r = map_of (repositories s) r"
proof (cases res)
  case None
  with assms(1) have "fill conf s = (None, s')" by simp
  then show ?thesis
  proof (rule fill_None)
    fix s1
    assume reporun: "fillReposLoop (get conf ''repositories'') (Object_keys (get conf ''repositories'')) s1 = (None, s')"
    from fillReposLoop_stored[OF reporun assms(2)] fillReposLoop_frame[OF reporun] assms(3)
    show ?thesis by (auto simp: Map_has_def)
  qed
next
  case (Some e)
  with assms(1) have f: "fill conf s = (Some e, s')" by simp
  from f have ce: "is_ConfigurationError e" by (rule fill_CE)
  from f have "map_of (repositories s') r = map_of (repositories s) r"
  proof (cases rule: fill_Some_cases)
    case db
    from fillDatabasesLoop_frame[OF db(3)] show ?thesis by simp
  next
    case (norepo s1)
    with assms(2) show ?thesis by simp
  next
    case (repo s1)
    from fillReposLoop_frame[OF repo(5)] assms(3)
    have "validateRepoConf s1 r (getprop (get conf ''repositories'') r) \<noteq> None"
      by (simp add: validateRepoConf_None Map_has_def)
    from fillReposLoop_invalid_untouched[OF repo(5) this] fillDatabasesLoop_frame[OF repo(3)]
    show ?thesis by simp
  qed simp_all
  with ce Some show ?thesis by simp
qed


lemma fill_stored:
  assumes "fill conf s = (None, s')"
    and "r \<in> set (Object_keys (get conf ''repositories''))"
  shows "\<exists>db. Map_get (databases s') (getprop (get conf ''repositories'') r) = Some db
           \<and> isNonEmptyString (getprop (get conf ''repositories'') r)
           \<and> map_of (repositories s') r
               = Some \<lparr>name = r, pool = pool db, databaseName = getprop (get conf ''repositories'') r\<rparr>"
  using assms(1)
proof (rule fill_None)
  fix s1
  assume reporun: "fillReposLoop (get conf ''repositories'') (Object_keys (get conf ''repositories'')) s1 = (None, s')"
  from fillReposLoop_stored[OF reporun assms(2)] fillReposLoop_frame[OF reporun]
  show ?thesis by simp
qed

lemma fill_stored_database:
  assumes "fill conf s = (None, s')"
    and "d \<in> set (Object_keys (get conf ''databases''))"
  shows "\<exists>p. map_of (databases s') d = Some \<lparr>name = d, pool = p\<rparr>
           \<and> pool_conf p = getprop (get conf ''databases'') d
           \<and> next_pool s \<le> pool_id p \<and> pool_id p < next_pool s'"
  using assms(1)
proof (rule fill_None)
  fix s1
  assume dbrun: "fillDatabasesLoop (get conf ''databases'') (Object_keys (get conf ''databases'')) s = (None, s1)"
    and reporun: "fillReposLoop (get conf ''repositories'') (Object_keys (get conf ''repositories'')) s1 = (None, s')"
  from fillDatabasesLoop_stored[OF dbrun assms(2)] fillReposLoop_frame[OF reporun]
  show ?thesis by simp
qed

lemma fill_again:
  assumes "fill conf s = (None, s1)"
  shows "fst (fill conf s1) = None"
  using assms
proof (rule fill_None)
  fix sA
  let ?dbs = "get conf ''databases''" and ?repos = "get conf ''repositories''"
  assume v: "validateConf conf = None"
    and dk: "Object_keys ?dbs \<noteq> []" and rk: "Object_keys ?repos \<noteq> []"
    and dbrun: "fillDatabasesLoop ?dbs (Object_keys ?dbs) s = (None, sA)"
    and reporun: "fillReposLoop ?repos (Object_keys ?repos) sA = (None, s1)"
  obtain resB sB where dbrun2: "fillDatabasesLoop ?dbs (Object_keys ?dbs) s1 = (resB, sB)"
    by (cases "fillDatabasesLoop ?dbs (Object_keys ?dbs) s1")
  from fillDatabasesLoop_err[of ?dbs "Object_keys ?dbs" s] fillDatabasesLoop_err[of ?dbs "Object_keys ?dbs" s1]
    dbrun dbrun2
  have resB: "resB = None" by simp
  have "validateRepoConf sB k (getprop ?repos k) = None" if "k \<in> set (Object_keys ?repos)" for k
  proof -
    from fillReposLoop_stored[OF reporun that] obtain db where
      db: "Map_get (databases sA) (getprop ?repos k) = Some db" and ne: "isNonEmptyString (getprop ?repos k)"
      by blast
    from ne obtain d where d: "getprop ?repos k = JStr d" by (cases "getprop ?repos k") auto
    from db d fillReposLoop_frame[OF reporun] have "map_of (databases s1) d \<noteq> None" by simp
    from fillDatabasesLoop_dom[OF dbrun2 this] d ne show ?thesis
      by (simp add: validateRepoConf_None)
  qed
  then have "fst (fillReposLoop ?repos (Object_keys ?repos) sB) = None"
    unfolding fillReposLoop_err by (simp add: firstErr_None)
  with v dk rk dbrun2 resB show ?thesis
    by (simp add: fill_def fillDatabasesMap_def fillReposMap_def)
qed

lemma assertRepo_cong:
  "(\<And>r. (map_of (repositories s2) r = None) = (map_of (repositories s1) r = None)) \<Longrightarrow>
   assertRepo s2 v = assertRepo s1 v"
  by (cases v) (auto simp: assertRepo_def Map_has_def)

lemma getPool_Inl: "getPool s v = Inl e \<longleftrightarrow> assertRepo s v = Some e"
  by (cases v) (auto simp: getPool_def assertRepo_def Map_has_def split: option.splits)

lemma fill_empty:
  assumes "Object_keys (get conf ''databases'') = [] \<or> Object_keys (get conf ''repositories'') = []"
  shows "\<exists>e. fst (fill conf s) = Some e \<and> is_ConfigurationError e"
proof (cases "fst (fill conf s)")
  case None
  then have "fill conf s = (None, snd (fill conf s))" by (metis prod.collapse)
  then have False by (rule fill_None) (use assms in auto)
  then show ?thesis ..
next
  case (Some e)
  then have "fill conf s = (Some e, snd (fill conf s))" by (metis prod.collapse)
  from fill_CE[OF this] Some show ?thesis by simp
qed

lemma loadCallback_promise:
  "promise (fst (loadCallback cbfn told (Inr conf) s))
     = (case fst (fill conf s) of Some e \<Rightarrow> Rejected e | None \<Rightarrow> Resolved ())"
  by (simp add: loadCallback_def split: option.splits prod.splits)

lemma pools_allocated_newConnector: "pools_allocated newConnector"
  by (simp add: pools_allocated_def newConnector_def)

lemma fillDatabasesLoop_allocated:
  "fillDatabasesLoop dbs keys s = (res, s') \<Longrightarrow> pools_allocated s \<Longrightarrow> pools_allocated s'"
proof (induction keys arbitrary: s)
  case Nil
  then show ?case by simp
next
  case (Cons k keys)
  show ?case
  proof (cases "validateDatabaseConf k (getprop dbs k)")
    case None
    let ?e = "\<lparr>name = k, pool = \<lparr>pool_id = next_pool s, pool_conf = getprop dbs k\<rparr>\<rparr>"
    let ?s1 = "s\<lparr>next_pool := Suc (next_pool s), databases := AList.update k ?e (databases s)\<rparr>"
    from Cons.prems(1) None have run: "fillDatabasesLoop dbs keys ?s1 = (res, s')"
      by (simp add: newPool_def)
    from Cons.prems(2) set_update_subset[of k ?e "databases s"] have "pools_allocated ?s1"
      by (fastforce simp: pools_allocated_def list_all_iff)
    from Cons.IH[OF run this] show ?thesis .
  next
    case (Some e)
    with Cons.prems show ?thesis by simp
  qed
qed

lemma fillReposLoop_allocated:
  "fillReposLoop repos keys s = (res, s') \<Longrightarrow> pools_allocated s \<Longrightarrow> pools_allocated s'"
proof (induction keys arbitrary: s)
  case Nil
  then show ?case by simp
next
  case (Cons k keys)
  show ?case
  proof (cases "validateRepoConf s k (getprop repos k)")
    case None
    then obtain db where db: "Map_get (databases s) (getprop repos k) = Some db"
      by (auto simp: validateRepoConf_None)
    then obtain d where d: "getprop repos k = JStr d" "map_of (databases s) d = Some db"
      by (cases "getprop repos k") auto
    let ?e = "\<lparr>name = k, pool = pool db, databaseName = getprop repos k\<rparr>"
    let ?s1 = "s\<lparr>repositories := AList.update k ?e (repositories s)\<rparr>"
    from Cons.prems(1) None db have run: "fillReposLoop repos keys ?s1 = (res, s')" by simp
    from map_of_SomeD[OF d(2)] Cons.prems(2) have "pool_id (pool db) < next_pool s"
      by (auto simp: pools_allocated_def list_all_iff)
    with Cons.prems(2) set_update_subset[of k ?e "repositories s"] have "pools_allocated ?s1"
      by (fastforce simp: pools_allocated_def list_all_iff)
    from Cons.IH[OF run this] show ?thesis .
  next
    case (Some e)
    with Cons.prems show ?thesis by simp
  qed
qed

lemma fill_allocated:
  assumes "pools_allocated s" shows "pools_allocated (snd (fill conf s))"
proof -
  obtain res s' where f: "fill conf s = (res, s')" by (cases "fill conf s")
  have "pools_allocated s'"
  proof (cases res)
    case None
    with f have "fill conf s = (None, s')" by simp
    then show ?thesis
      by (rule fill_None) (blast intro: fillDatabasesLoop_allocated fillReposLoop_allocated assms)
  next
    case (Some e)
    with f have "fill conf s = (Some e, s')" by simp
    then show ?thesis
      by (cases rule: fill_Some_cases)
         (auto intro: assms fillDatabasesLoop_allocated[OF _ assms]
               dest: fillReposLoop_allocated[OF _ fillDatabasesLoop_allocated[OF _ assms]])
  qed
  with f show ?thesis by simp
qed

section \<open>The claims\<close>

subsection \<open>C1\<close>

text \<open>
  \<^bold>\<open>C1\<close> (as the code has it). When any part of a snapshot fails validation, \<^verbatim>\<open>_fill\<close>
  returns a \<^verbatim>\<open>ConfigurationError\<close>, which \<^verbatim>\<open>add\<close> throws and \<^verbatim>\<open>load\<close> rejects with,
  and nothing is rolled back. The connector is left in exactly one of these states:
  unchanged, when a top-level check fails or \<^verbatim>\<open>databases\<close> is empty; or, when database
  number \<open>n\<close> in key order is the first invalid one and the fault is its fault, as the loop
  over the \<open>n\<close> databases before it leaves it, each of them stored with a pool constructed
  in this call; or, when every database is valid, with all of them stored and, the
  fault being that of the first invalid repository, number \<open>n\<close>, as the loop over the \<open>n\<close>
  repositories before it leaves it, each of them stored. Entries under names the
  snapshot does not mention never change.
\<close>

theorem fill_failure_partial:
  assumes "fill conf s = (Some e, s')"
  shows "is_ConfigurationError e
    \<and> (\<forall>k. k \<notin> set (Object_keys (get conf ''databases'')) \<longrightarrow> map_of (databases s') k = map_of (databases s) k)
    \<and> (\<forall>r. r \<notin> set (Object_keys (get conf ''repositories'')) \<longrightarrow> map_of (repositories s') r = map_of (repositories s) r)
    \<and> ((validateConf conf = Some e \<and> s' = s)
       \<or> (validateConf conf = None \<and> Object_keys (get conf ''databases'') = [] \<and> s' = s)
       \<or> (validateConf conf = None
          \<and> (\<exists>n < length (Object_keys (get conf ''databases'')).
                validateDatabaseConf (Object_keys (get conf ''databases'') ! n)
                    (getprop (get conf ''databases'') (Object_keys (get conf ''databases'') ! n)) = Some e
              \<and> fillDatabasesLoop (get conf ''databases'') (take n (Object_keys (get conf ''databases''))) s = (None, s')
              \<and> next_pool s' = next_pool s + n
              \<and> (\<forall>i < n. \<exists>p. map_of (databases s') (Object_keys (get conf ''databases'') ! i)
                                = Some \<lparr>name = Object_keys (get conf ''databases'') ! i, pool = p\<rparr>
                              \<and> next_pool s \<le> pool_id p)))
       \<or> (validateConf conf = None \<and> Object_keys (get conf ''databases'') \<noteq> []
          \<and> (\<exists>s1. fillDatabasesLoop (get conf ''databases'') (Object_keys (get conf ''databases'')) s = (None, s1)
              \<and> databases s' = databases s1
              \<and> next_pool s' = next_pool s + length (Object_keys (get conf ''databases''))
              \<and> (\<forall>k \<in> set (Object_keys (get conf ''databases'')).
                    \<exists>p. map_of (databases s') k = Some \<lparr>name = k, pool = p\<rparr> \<and> next_pool s \<le> pool_id p)
              \<and> ((Object_keys (get conf ''repositories'') = [] \<and> s' = s1)
                 \<or> (\<exists>n < length (Object_keys (get conf ''repositories'')).
                       validateRepoConf s1 (Object_keys (get conf ''repositories'') ! n)
                           (getprop (get conf ''repositories'') (Object_keys (get conf ''repositories'') ! n)) = Some e
                     \<and> fillReposLoop (get conf ''repositories'') (take n (Object_keys (get conf ''repositories''))) s1
                           = (None, s')
                     \<and> (\<forall>i < n. \<exists>db. Map_get (databases s1)
                                          (getprop (get conf ''repositories'') (Object_keys (get conf ''repositories'') ! i))
                                        = Some db
                                   \<and> map_of (repositories s') (Object_keys (get conf ''repositories'') ! i)
                                       = Some \<lparr>name = Object_keys (get conf ''repositories'') ! i, pool = pool db,
                                               databaseName = getprop (get conf ''repositories'')
                                                 (Object_keys (get conf ''repositories'') ! i)\<rparr>))))))"
  (is "?ce \<and> ?fd \<and> ?fr \<and> (?top \<or> ?nodb \<or> ?db \<or> ?repo)")
proof -
  let ?dbs = "get conf ''databases''" and ?repos = "get conf ''repositories''"
  have 1: ?ce using assms by (rule fill_CE)
  have 2: ?fd using fill_other_database[OF assms] by blast
  have 3: ?fr using fill_other_repository[OF assms] by blast
  have 4: "?top \<or> ?nodb \<or> ?db \<or> ?repo"
    using assms
  proof (cases rule: fill_Some_cases)
    case top
    then show ?thesis by simp
  next
    case nodb
    then show ?thesis by simp
  next
    case db
    from fillDatabasesLoop_prefix[OF db(3)] obtain n where n: "n < length (Object_keys ?dbs)"
      "fillDatabasesLoop ?dbs (take n (Object_keys ?dbs)) s = (None, s')"
      "validateDatabaseConf (Object_keys ?dbs ! n) (getprop ?dbs (Object_keys ?dbs ! n)) = Some e"
      by blast
    from fillDatabasesLoop_next_pool[OF n(2)] n(1) have np: "next_pool s' = next_pool s + n" by simp
    from n(1) have le: "n \<le> length (Object_keys ?dbs)" by simp
    have st: "\<forall>i < n. \<exists>p. map_of (databases s') (Object_keys ?dbs ! i)
                          = Some \<lparr>name = Object_keys ?dbs ! i, pool = p\<rparr> \<and> next_pool s \<le> pool_id p"
      using fillDatabasesLoop_prefix_stored[OF n(2) le] by blast
    from db(1) n np st have ?db by blast
    then show ?thesis by blast
  next
    case (norepo s1)
    from fillDatabasesLoop_next_pool[OF norepo(3)] norepo(6)
    have np: "next_pool s' = next_pool s + length (Object_keys ?dbs)" by simp
    have st: "\<forall>k \<in> set (Object_keys ?dbs).
                \<exists>p. map_of (databases s') k = Some \<lparr>name = k, pool = p\<rparr> \<and> next_pool s \<le> pool_id p"
      using fillDatabasesLoop_stored[OF norepo(3)] norepo(6) by blast
    from norepo np st have ?repo by blast
    then show ?thesis by blast
  next
    case (repo s1)
    from fillReposLoop_frame[OF repo(5)] have fr: "databases s' = databases s1" "next_pool s' = next_pool s1"
      by simp_all
    from fillDatabasesLoop_next_pool[OF repo(3)] fr
    have np: "next_pool s' = next_pool s + length (Object_keys ?dbs)" by simp
    have st: "\<forall>k \<in> set (Object_keys ?dbs).
                \<exists>p. map_of (databases s') k = Some \<lparr>name = k, pool = p\<rparr> \<and> next_pool s \<le> pool_id p"
      using fillDatabasesLoop_stored[OF repo(3)] fr by auto
    from fillReposLoop_prefix[OF repo(5)] obtain n where n: "n < length (Object_keys ?repos)"
      "fillReposLoop ?repos (take n (Object_keys ?repos)) s1 = (None, s')"
      "validateRepoConf s1 (Object_keys ?repos ! n) (getprop ?repos (Object_keys ?repos ! n)) = Some e"
      by blast
    from n(1) have le: "n \<le> length (Object_keys ?repos)" by simp
    have rs: "\<forall>i < n. \<exists>db. Map_get (databases s1) (getprop ?repos (Object_keys ?repos ! i)) = Some db
                 \<and> map_of (repositories s') (Object_keys ?repos ! i)
                     = Some \<lparr>name = Object_keys ?repos ! i, pool = pool db,
                             databaseName = getprop ?repos (Object_keys ?repos ! i)\<rparr>"
      using fillReposLoop_prefix_stored[OF n(2) le] by blast
    from n rs have "\<exists>n < length (Object_keys ?repos).
        validateRepoConf s1 (Object_keys ?repos ! n) (getprop ?repos (Object_keys ?repos ! n)) = Some e
        \<and> fillReposLoop ?repos (take n (Object_keys ?repos)) s1 = (None, s')
        \<and> (\<forall>i < n. \<exists>db. Map_get (databases s1) (getprop ?repos (Object_keys ?repos ! i)) = Some db
                 \<and> map_of (repositories s') (Object_keys ?repos ! i)
                     = Some \<lparr>name = Object_keys ?repos ! i, pool = pool db,
                             databaseName = getprop ?repos (Object_keys ?repos ! i)\<rparr>)"
      by blast
    with repo(1,2,3) fr(1) np st have ?repo by blast
    then show ?thesis by blast
  qed
  from 1 2 3 4 show ?thesis by blast
qed

text \<open>At a snapshot whose second database has an empty host, the first one stays stored.\<close>

theorem fill_failure_partial_witness:
  "is_ConfigurationError (the (fst (fill snapshot_second_database_invalid newConnector)))
   \<and> next_pool (snd (fill snapshot_second_database_invalid newConnector)) = 1
   \<and> map_of (databases (snd (fill snapshot_second_database_invalid newConnector))) ''z'' = None"
  using fill_failure_partial[of snapshot_second_database_invalid newConnector
      "the (fst (fill snapshot_second_database_invalid newConnector))"
      "snd (fill snapshot_second_database_invalid newConnector)"]
  by (simp add: eval_defs snapshot_second_database_invalid_def)

text \<open>
  The claim as stated fails: \<^verbatim>\<open>add\<close> throws for this snapshot, and the \<^verbatim>\<open>databases\<close>
  map, empty before the call, holds database \<^verbatim>\<open>a\<close> after it.
\<close>

theorem snapshot_not_atomic_counterexample:
  "fst (add kibbutz_single [JObj snapshot_second_database_invalid] newConnector)
     = Some (newConfigurationError (msg ''dbConfHostStr'')
               (JObj [(''key'', JStr ''b''), (''value'', JObj [(''host'', JStr [])])]))
   \<and> databases (snd (add kibbutz_single [JObj snapshot_second_database_invalid] newConnector))
       = [(''a'', \<lparr>name = ''a'', pool = \<lparr>pool_id = 0, pool_conf = localhost\<rparr>\<rparr>)]
   \<and> databases newConnector = []"
  by (simp add: eval_defs snapshot_second_database_invalid_def)

subsection \<open>C2\<close>

text \<open>
  \<^bold>\<open>C2\<close> (as the code has it). After a successful application, for every repository name
  \<open>r\<close> of the snapshot mapped to a database \<open>d\<close> of the same snapshot, the entry stored for
  \<open>r\<close> holds the pool stored for \<open>d\<close>, which was constructed during this application
  (its identity lies between the counter before and after) from \<^verbatim>\<open>databases[d]\<close>;
  \<^verbatim>\<open>getPool\<close> returns that pool for every such \<open>r\<close> that is not the empty string.
\<close>

theorem applied_repository_pool:
  assumes "fill conf s = (None, s')"
    and "r \<in> set (Object_keys (get conf ''repositories''))"
    and "getprop (get conf ''repositories'') r = JStr d"
    and "d \<in> set (Object_keys (get conf ''databases''))"
  shows "\<exists>p. map_of (databases s') d = Some \<lparr>name = d, pool = p\<rparr>
           \<and> pool_conf p = getprop (get conf ''databases'') d
           \<and> next_pool s \<le> pool_id p \<and> pool_id p < next_pool s'
           \<and> map_of (repositories s') r = Some \<lparr>name = r, pool = p, databaseName = JStr d\<rparr>
           \<and> (r \<noteq> [] \<longrightarrow> getPool s' (JStr r) = Inr p)"
  using assms(1)
proof (rule fill_None)
  fix s1
  assume dbrun: "fillDatabasesLoop (get conf ''databases'') (Object_keys (get conf ''databases'')) s = (None, s1)"
    and reporun: "fillReposLoop (get conf ''repositories'') (Object_keys (get conf ''repositories'')) s1 = (None, s')"
  from fillDatabasesLoop_stored[OF dbrun assms(4)] obtain p where
    p: "map_of (databases s1) d = Some \<lparr>name = d, pool = p\<rparr>"
       "pool_conf p = getprop (get conf ''databases'') d"
       "next_pool s \<le> pool_id p" "pool_id p < next_pool s1" by blast
  from fillReposLoop_stored[OF reporun assms(2)] assms(3) p(1)
  have r: "map_of (repositories s') r = Some \<lparr>name = r, pool = p, databaseName = JStr d\<rparr>"
    by auto
  from fillReposLoop_frame[OF reporun] have fr: "databases s' = databases s1" "next_pool s' = next_pool s1"
    by simp_all
  from getPool_stored[OF r] have "r \<noteq> [] \<longrightarrow> getPool s' (JStr r) = Inr p" by simp
  with p r fr show ?thesis by simp
qed

theorem applied_repository_pool_witness:
  "\<exists>p. map_of (databases (snd (fill snapshot_primary newConnector))) ''primary'' = Some \<lparr>name = ''primary'', pool = p\<rparr>
     \<and> pool_conf p = localhost
     \<and> getPool (snd (fill snapshot_primary newConnector)) (JStr ''test'') = Inr p"
  using applied_repository_pool[of snapshot_primary newConnector "snd (fill snapshot_primary newConnector)"
      "''test''" "''primary''"]
  by (simp add: eval_defs snapshot_defs)

text \<open>
  The claim as stated fails at the repository name \<^verbatim>\<open>""\<close>: the snapshot is applied,
  the entry is stored, and \<^verbatim>\<open>getPool("")\<close> throws the \<^verbatim>\<open>TypeError\<close> of \<^verbatim>\<open>_assertRepo\<close>.
\<close>

theorem unnamed_repository_counterexample:
  "fst (add kibbutz_single [JObj snapshot_unnamed_repository] newConnector) = None
   \<and> Object_keys (get snapshot_unnamed_repository ''repositories'') = [[]]
   \<and> getPool (snd (add kibbutz_single [JObj snapshot_unnamed_repository] newConnector)) (JStr [])
       = Inl (TypeError (msg ''argRepoStr''))"
  by (simp add: eval_defs snapshot_defs)

subsection \<open>C3\<close>

text \<open>
  \<^bold>\<open>C3\<close> (as the code has it). The fault \<^verbatim>\<open>_fill\<close> reports is the first failure of the
  checks in this order: the \<^verbatim>\<open>databases\<close> key present and a plain mapping (rule 1), the
  \<^verbatim>\<open>repositories\<close> key present and a plain mapping (rule 3), \<^verbatim>\<open>databases\<close> not empty and
  each of its entries valid in key order (rule 2), \<^verbatim>\<open>repositories\<close> not empty and each of
  its entries valid in key order against the databases then known (rule 4). In
  particular, when \<^verbatim>\<open>databases\<close> is a plain mapping and \<^verbatim>\<open>repositories\<close> is missing or not
  one, the fault is the one about the \<^verbatim>\<open>repositories\<close> key, whatever the database entries
  are.
\<close>

theorem validation_order:
  "fst (fill conf s) = firstErr
     ([if \<not> elv (get conf ''databases'') then Some (newConfigurationError (msg ''noDatabases'') (JObj conf)) else None,
       if \<not> isPojo (get conf ''databases'') then Some (newConfigurationError (msg ''databasesPojo'') (JObj conf)) else None,
       if \<not> elv (get conf ''repositories'') then Some (newConfigurationError (msg ''noRepositories'') (JObj conf)) else None,
       if \<not> isPojo (get conf ''repositories'') then Some (newConfigurationError (msg ''reposPojo'') (JObj conf)) else None,
       if Object_keys (get conf ''databases'') = []
         then Some (newConfigurationError (msg ''noDatabases'') JUndefined) else None]
      @ map (\<lambda>k. validateDatabaseConf k (getprop (get conf ''databases'') k))
            (Object_keys (get conf ''databases''))
      @ [if Object_keys (get conf ''repositories'') = []
           then Some (newConfigurationError (msg ''noRepositories'') JUndefined) else None]
      @ map (\<lambda>r. validateRepoConf (snd (fillDatabasesMap (get conf ''databases'') s)) r
                    (getprop (get conf ''repositories'') r))
            (Object_keys (get conf ''repositories'')))
   \<and> (elv (get conf ''databases'') \<and> isPojo (get conf ''databases'')
        \<and> \<not> (elv (get conf ''repositories'') \<and> isPojo (get conf ''repositories'')) \<longrightarrow>
      fst (fill conf s)
        = Some (newConfigurationError
                  (msg (if elv (get conf ''repositories'') then ''reposPojo'' else ''noRepositories''))
                  (JObj conf)))"
proof
  show "fst (fill conf s) = firstErr
     ([if \<not> elv (get conf ''databases'') then Some (newConfigurationError (msg ''noDatabases'') (JObj conf)) else None,
       if \<not> isPojo (get conf ''databases'') then Some (newConfigurationError (msg ''databasesPojo'') (JObj conf)) else None,
       if \<not> elv (get conf ''repositories'') then Some (newConfigurationError (msg ''noRepositories'') (JObj conf)) else None,
       if \<not> isPojo (get conf ''repositories'') then Some (newConfigurationError (msg ''reposPojo'') (JObj conf)) else None,
       if Object_keys (get conf ''databases'') = []
         then Some (newConfigurationError (msg ''noDatabases'') JUndefined) else None]
      @ map (\<lambda>k. validateDatabaseConf k (getprop (get conf ''databases'') k))
            (Object_keys (get conf ''databases''))
      @ [if Object_keys (get conf ''repositories'') = []
           then Some (newConfigurationError (msg ''noRepositories'') JUndefined) else None]
      @ map (\<lambda>r. validateRepoConf (snd (fillDatabasesMap (get conf ''databases'') s)) r
                    (getprop (get conf ''repositories'') r))
            (Object_keys (get conf ''repositories'')))"
    unfolding fill_err validateConf_firstErr
    by (simp add: firstErr_append split: option.splits)
next
  show "elv (get conf ''databases'') \<and> isPojo (get conf ''databases'')
        \<and> \<not> (elv (get conf ''repositories'') \<and> isPojo (get conf ''repositories'')) \<longrightarrow>
      fst (fill conf s)
        = Some (newConfigurationError
                  (msg (if elv (get conf ''repositories'') then ''reposPojo'' else ''noRepositories''))
                  (JObj conf))"
    by (auto simp: fill_def validateConf_def)
qed

theorem validation_order_witness:
  "elv (get snapshot_invalid_database_no_repositories ''databases'')
   \<and> isPojo (get snapshot_invalid_database_no_repositories ''databases'')
   \<and> \<not> elv (get snapshot_invalid_database_no_repositories ''repositories'')
   \<and> fst (fill snapshot_invalid_database_no_repositories newConnector)
       = Some (ConfigurationError (JStr ''Invalid configuration'')
                 (JObj snapshot_invalid_database_no_repositories))"
proof -
  have h: "elv (get snapshot_invalid_database_no_repositories ''databases'')
     \<and> isPojo (get snapshot_invalid_database_no_repositories ''databases'')
     \<and> \<not> (elv (get snapshot_invalid_database_no_repositories ''repositories'')
          \<and> isPojo (get snapshot_invalid_database_no_repositories ''repositories''))"
    by (simp add: snapshot_defs get_def isPojo_def)
  from validation_order[of snapshot_invalid_database_no_repositories newConnector] h
  have "fst (fill snapshot_invalid_database_no_repositories newConnector)
        = Some (newConfigurationError
                  (msg (if elv (get snapshot_invalid_database_no_repositories ''repositories'')
                        then ''reposPojo'' else ''noRepositories''))
                  (JObj snapshot_invalid_database_no_repositories))"
    by blast
  moreover have "\<not> elv (get snapshot_invalid_database_no_repositories ''repositories'')"
    by (simp add: snapshot_defs get_def)
  ultimately show ?thesis using h
    by (simp add: newConfigurationError_def msg_def msg_table_def get_def coalesce_def)
qed

text \<open>
  The claim as stated fails: with an invalid database entry and no \<^verbatim>\<open>repositories\<close> key,
  \<^verbatim>\<open>add\<close> throws the fault of the missing key, not the one of the database entry.
\<close>

theorem rule3_before_rule2_counterexample:
  "validateDatabaseConf ''primary'' (getprop (get snapshot_invalid_database_no_repositories ''databases'') ''primary'')
     = Some (newConfigurationError (msg ''dbConfHostStr'')
         (JObj [(''key'', JStr ''primary''), (''value'', JObj [(''host'', JStr [])])]))
   \<and> get snapshot_invalid_database_no_repositories ''repositories'' = JUndefined
   \<and> fst (add kibbutz_single [JObj snapshot_invalid_database_no_repositories] newConnector)
        = Some (newConfigurationError (msg ''noRepositories'') (JObj snapshot_invalid_database_no_repositories))
   \<and> newConfigurationError (msg ''noRepositories'') (JObj snapshot_invalid_database_no_repositories)
        \<noteq> newConfigurationError (msg ''dbConfHostStr'')
         (JObj [(''key'', JStr ''primary''), (''value'', JObj [(''host'', JStr [])])])"
  by (simp add: eval_defs snapshot_defs)

subsection \<open>C4\<close>

text \<open>
  \<^bold>\<open>C4\<close> (as the code has it). A mapping \<^verbatim>\<open>repositories[r] = d\<close> is accepted only when
  \<open>d\<close> is a non-empty string naming a key of the same snapshot's \<^verbatim>\<open>databases\<close> or a
  database the connector already has an entry for. When it is neither, the application
  fails with a \<^verbatim>\<open>ConfigurationError\<close> and no entry is written for \<open>r\<close>.
\<close>

theorem repository_needs_known_database:
  assumes "fill conf s = (res, s')"
    and "r \<in> set (Object_keys (get conf ''repositories''))"
    and "\<not> (isNonEmptyString (getprop (get conf ''repositories'') r)
            \<and> (Map_has (databases s) (getprop (get conf ''repositories'') r)
               \<or> (\<exists>k \<in> set (Object_keys (get conf ''databases'')).
                     getprop (get conf ''repositories'') r = JStr k)))"
  shows "(\<exists>e. res = Some e \<and> is_ConfigurationError e)
       \<and> map_of (repositories s') r = map_of (repositories s) r"
proof -
  let ?d = "getprop (get conf ''repositories'') r"
  have invalid: "validateRepoConf s1 r ?d \<noteq> None"
    if run: "fillDatabasesLoop (get conf ''databases'') (Object_keys (get conf ''databases'')) s = (None, s1)"
    for s1
  proof (cases "isNonEmptyString ?d")
    case False
    then show ?thesis by (simp add: validateRepoConf_None)
  next
    case True
    then obtain k where k: "?d = JStr k" by (cases ?d) auto
    with True assms(3) have notin: "k \<notin> set (Object_keys (get conf ''databases''))"
      and nothas: "map_of (databases s) k = None"
      by (auto simp: Map_has_def)
    from fillDatabasesLoop_other[OF run notin] nothas
    have "map_of (databases s1) k = None" by simp
    with k show ?thesis by (simp add: validateRepoConf_None)
  qed
  show ?thesis
  proof (cases res)
    case None
    with assms(1) have "fill conf s = (None, s')" by simp
    then show ?thesis
    proof (rule fill_None)
      fix s1
      assume dbrun: "fillDatabasesLoop (get conf ''databases'') (Object_keys (get conf ''databases'')) s = (None, s1)"
        and reporun: "fillReposLoop (get conf ''repositories'') (Object_keys (get conf ''repositories'')) s1 = (None, s')"
      from fillReposLoop_stored[OF reporun assms(2)] invalid[OF dbrun]
      show ?thesis by (auto simp: validateRepoConf_None)
    qed
  next
    case (Some e)
    with assms(1) have f: "fill conf s = (Some e, s')" by simp
    from f have ce: "is_ConfigurationError e" by (rule fill_CE)
    from f have "map_of (repositories s') r = map_of (repositories s) r"
    proof (cases rule: fill_Some_cases)
      case db
      from fillDatabasesLoop_frame[OF db(3)] show ?thesis by simp
    next
      case (norepo s1)
      with assms(2) show ?thesis by simp
    next
      case (repo s1)
      from fillReposLoop_invalid_untouched[OF repo(5) invalid[OF repo(3)]]
        fillDatabasesLoop_frame[OF repo(3)]
      show ?thesis by simp
    qed simp_all
    with ce Some show ?thesis by simp
  qed
qed

theorem repository_needs_known_database_witness:
  "(\<exists>e. fst (fill snapshot_dangling newConnector) = Some e \<and> is_ConfigurationError e)
   \<and> map_of (repositories (snd (fill snapshot_dangling newConnector))) ''test'' = None"
  using repository_needs_known_database[of snapshot_dangling newConnector
      "fst (fill snapshot_dangling newConnector)" "snd (fill snapshot_dangling newConnector)" "''test''"]
  by (simp add: eval_defs snapshot_dangling_def)

text \<open>
  The claim as stated fails: after a first \<^verbatim>\<open>add\<close> has created database \<^verbatim>\<open>primary\<close>, a
  second snapshot whose \<^verbatim>\<open>databases\<close> holds only \<^verbatim>\<open>secondary\<close> maps \<^verbatim>\<open>orders\<close> to
  \<^verbatim>\<open>primary\<close> and is accepted.
\<close>

theorem earlier_database_accepted_counterexample:
  "fst (add kibbutz_single [JObj snapshot_primary] newConnector) = None
   \<and> Object_keys (get snapshot_other_database ''databases'') = [''secondary'']
   \<and> getprop (get snapshot_other_database ''repositories'') ''orders'' = JStr ''primary''
   \<and> fst (add kibbutz_single [JObj snapshot_other_database]
            (snd (add kibbutz_single [JObj snapshot_primary] newConnector))) = None
   \<and> map_of (repositories (snd (add kibbutz_single [JObj snapshot_other_database]
            (snd (add kibbutz_single [JObj snapshot_primary] newConnector))))) ''orders''
       = Some \<lparr>name = ''orders'', pool = \<lparr>pool_id = 0, pool_conf = localhost\<rparr>,
               databaseName = JStr ''primary''\<rparr>"
  by (simp add: eval_defs snapshot_defs)

subsection \<open>C5\<close>

text \<open>
  \<^bold>\<open>C5\<close>. Every operation that changes a connector (\<^verbatim>\<open>_fill\<close>, hence \<^verbatim>\<open>add\<close> and
  \<^verbatim>\<open>load\<close>, and \<^verbatim>\<open>on\<close>) keeps the invariant that each repository entry names a database
  the connector has an entry for. A repository of the snapshot whose database name has
  no entry once the databases are applied makes the application fail with a
  \<^verbatim>\<open>ConfigurationError\<close>, and the call writes no entry for that repository name.
\<close>

theorem registry_invariant:
  assumes "registry_inv s"
  shows "registry_inv (snd (fill conf s))
    \<and> registry_inv (snd (add kibbutz args s))
    \<and> (\<forall>out s'. load kibbutz_load providers rest s = Inr (out, s') \<longrightarrow> registry_inv s')
    \<and> (\<forall>s'. on eventName listener s = Inr s' \<longrightarrow> registry_inv s')
    \<and> (\<forall>r \<in> set (Object_keys (get conf ''repositories'')).
         \<not> Map_has (databases (snd (fill conf s))) (getprop (get conf ''repositories'') r) \<longrightarrow>
           (\<exists>e. fst (fill conf s) = Some e \<and> is_ConfigurationError e)
           \<and> map_of (repositories (snd (fill conf s))) r = map_of (repositories s) r)"
proof -
  have 1: "registry_inv (snd (fill conf s))" for conf using assms by (rule fill_inv)
  have 2: "registry_inv (snd (add kibbutz args s))"
    using 1 assms by (simp add: add_def)
  have 3: "\<forall>out s'. load kibbutz_load providers rest s = Inr (out, s') \<longrightarrow> registry_inv s'"
    using 1 assms by (auto dest!: load_state)
  have 4: "\<forall>s'. on eventName listener s = Inr s' \<longrightarrow> registry_inv s'"
    using assms by (auto simp: on_def registry_inv_def split: jsval.splits if_splits)
  have 5: "\<forall>r \<in> set (Object_keys (get conf ''repositories'')).
         \<not> Map_has (databases (snd (fill conf s))) (getprop (get conf ''repositories'') r) \<longrightarrow>
           (\<exists>e. fst (fill conf s) = Some e \<and> is_ConfigurationError e)
           \<and> map_of (repositories (snd (fill conf s))) r = map_of (repositories s) r"
    using fill_dangling[of conf s "fst (fill conf s)" "snd (fill conf s)"] by simp
  from 1 2 3 4 5 show ?thesis by blast
qed

theorem registry_invariant_witness:
  "registry_inv newConnector
   \<and> registry_inv (snd (fill snapshot_dangling newConnector))
   \<and> map_of (repositories (snd (fill snapshot_dangling newConnector))) ''test'' = None
   \<and> registry_inv (snd (add kibbutz_single [JObj snapshot_primary] newConnector))"
proof -
  have h: "registry_inv newConnector" by (simp add: registry_inv_def newConnector_def)
  have d: "\<not> Map_has (databases (snd (fill snapshot_dangling newConnector)))
             (getprop (get snapshot_dangling ''repositories'') ''test'')"
    by (simp add: eval_defs snapshot_dangling_def)
  have k: "''test'' \<in> set (Object_keys (get snapshot_dangling ''repositories''))"
    by (simp add: eval_defs snapshot_dangling_def)
  from registry_invariant[OF h, of snapshot_dangling kibbutz_single "[JObj snapshot_primary]"] h d k
  show ?thesis by (simp add: newConnector_def)
qed

subsection \<open>C6\<close>




subsection \<open>C7\<close>



subsection \<open>C8\<close>

text \<open>
  \<^bold>\<open>C8\<close>. After a successful \<^verbatim>\<open>add\<close>, the same \<^verbatim>\<open>add\<close> succeeds again; \<^verbatim>\<open>getPool\<close>
  then fails for the same names with the same errors, every repository has the same
  \<^verbatim>\<open>databaseName\<close>, and every database of the snapshot holds a pool constructed by the
  second call, different from the one the first call stored.
\<close>

theorem add_twice:
  assumes "add kibbutz args s = (None, s1)" and "args \<noteq> []"
  shows "\<exists>s2. add kibbutz args s1 = (None, s2)
    \<and> (\<forall>r e. getPool s2 r = Inl e \<longleftrightarrow> getPool s1 r = Inl e)
    \<and> (\<forall>r. map_option databaseName (Map_get (repositories s2) r)
             = map_option databaseName (Map_get (repositories s1) r))
    \<and> (\<forall>k \<in> set (Object_keys (get (kibbutz (flatten_args args)) ''databases'')).
          \<exists>p1 p2. map_of (databases s1) k = Some \<lparr>name = k, pool = p1\<rparr>
            \<and> map_of (databases s2) k = Some \<lparr>name = k, pool = p2\<rparr>
            \<and> pool_id p1 < next_pool s1 \<and> next_pool s1 \<le> pool_id p2 \<and> p2 \<noteq> p1)"
proof -
  define conf where "conf = kibbutz (flatten_args args)"
  from assms have f1: "fill conf s = (None, s1)" by (simp add: add_def conf_def)
  obtain s2 where f2: "fill conf s1 = (None, s2)"
    using fill_again[OF f1] by (cases "fill conf s1") auto
  have a: "add kibbutz args s1 = (None, s2)" using f2 assms(2) by (simp add: add_def conf_def)
  have same: "map_option (\<lambda>e. (name e, databaseName e)) (map_of (repositories s2) r)
            = map_option (\<lambda>e. (name e, databaseName e)) (map_of (repositories s1) r)" for r
  proof (cases "r \<in> set (Object_keys (get conf ''repositories''))")
    case True
    from fill_stored[OF f1 True] fill_stored[OF f2 True] show ?thesis by auto
  next
    case False
    from fill_other_repository[OF f2 False] show ?thesis by simp
  qed
  have dom: "(map_of (repositories s2) r = None) = (map_of (repositories s1) r = None)" for r
    using arg_cong[OF same[of r], of "\<lambda>x. x = None"] by simp
  have b: "\<forall>r e. getPool s2 r = Inl e \<longleftrightarrow> getPool s1 r = Inl e"
    using assertRepo_cong[of s2 s1, OF dom] by (simp add: getPool_Inl)
  have c: "map_option databaseName (Map_get (repositories s2) r)
             = map_option databaseName (Map_get (repositories s1) r)" for r
  proof (cases r)
    case (JStr k)
    from same[of k] have "map_option (snd \<circ> (\<lambda>e. (name e, databaseName e))) (map_of (repositories s2) k)
       = map_option (snd \<circ> (\<lambda>e. (name e, databaseName e))) (map_of (repositories s1) k)"
      unfolding option.map_comp[symmetric] by simp
    with JStr show ?thesis by (simp add: comp_def)
  qed simp_all
  have d: "\<exists>p1 p2. map_of (databases s1) k = Some \<lparr>name = k, pool = p1\<rparr>
            \<and> map_of (databases s2) k = Some \<lparr>name = k, pool = p2\<rparr>
            \<and> pool_id p1 < next_pool s1 \<and> next_pool s1 \<le> pool_id p2 \<and> p2 \<noteq> p1"
    if "k \<in> set (Object_keys (get conf ''databases''))" for k
  proof -
    from fill_stored_database[OF f1 that] obtain p1 where
      p1: "map_of (databases s1) k = Some \<lparr>name = k, pool = p1\<rparr>" "pool_id p1 < next_pool s1" by blast
    from fill_stored_database[OF f2 that] obtain p2 where
      p2: "map_of (databases s2) k = Some \<lparr>name = k, pool = p2\<rparr>" "next_pool s1 \<le> pool_id p2" by blast
    from p1(2) p2(2) have "p2 \<noteq> p1" by auto
    with p1 p2 show ?thesis by blast
  qed
  from a b c d show ?thesis unfolding conf_def by blast
qed

theorem add_twice_witness:
  "fst (add kibbutz_single [JObj snapshot_primary] (snd (add kibbutz_single [JObj snapshot_primary] newConnector)))
     = None
   \<and> getPool (snd (add kibbutz_single [JObj snapshot_primary] newConnector)) (JStr ''test'')
       = Inr \<lparr>pool_id = 0, pool_conf = localhost\<rparr>
   \<and> getPool (snd (add kibbutz_single [JObj snapshot_primary]
         (snd (add kibbutz_single [JObj snapshot_primary] newConnector)))) (JStr ''test'')
       = Inr \<lparr>pool_id = 1, pool_conf = localhost\<rparr>"
proof -
  let ?s1 = "snd (add kibbutz_single [JObj snapshot_primary] newConnector)"
  have h: "add kibbutz_single [JObj snapshot_primary] newConnector = (None, ?s1)"
    by (simp add: eval_defs snapshot_defs)
  have n: "[JObj snapshot_primary] \<noteq> []" by simp
  from add_twice[OF h n] show ?thesis
    by (simp add: eval_defs snapshot_defs)
qed

subsection \<open>C9\<close>

text \<open>
  \<^bold>\<open>C9\<close>. A merged configuration whose \<^verbatim>\<open>databases\<close> or \<^verbatim>\<open>repositories\<close> has no keys
  (an empty mapping, or no mapping at all) is rejected with a \<^verbatim>\<open>ConfigurationError\<close>:
  \<^verbatim>\<open>_fill\<close> returns it, \<^verbatim>\<open>add\<close> throws it and the promise of \<^verbatim>\<open>load\<close> is rejected with it.
\<close>

theorem empty_mapping_rejected:
  assumes "Object_keys (get conf ''databases'') = [] \<or> Object_keys (get conf ''repositories'') = []"
  shows "(\<exists>e. fst (fill conf s) = Some e \<and> is_ConfigurationError e)
    \<and> (args \<noteq> [] \<and> kibbutz (flatten_args args) = conf \<longrightarrow>
         (\<exists>e. fst (add kibbutz args s) = Some e \<and> is_ConfigurationError e))
    \<and> (\<forall>out s'. (\<forall>ps options. outcome (kibbutz_load ps options) = Inr conf)
           \<and> load kibbutz_load providers rest s = Inr (out, s') \<longrightarrow>
         (\<exists>e. promise out = Rejected e \<and> is_ConfigurationError e))"
proof -
  from fill_empty[OF assms] obtain e where e: "fst (fill conf s) = Some e" "is_ConfigurationError e"
    by blast
  have 1: "\<exists>e. fst (fill conf s) = Some e \<and> is_ConfigurationError e" using e by blast
  have 2: "args \<noteq> [] \<and> kibbutz (flatten_args args) = conf \<longrightarrow>
         (\<exists>e. fst (add kibbutz args s) = Some e \<and> is_ConfigurationError e)"
    using e by (auto simp: add_def)
  have 3: "\<exists>e. promise out = Rejected e \<and> is_ConfigurationError e"
    if agg: "\<forall>ps options. outcome (kibbutz_load ps options) = Inr conf"
      and l: "load kibbutz_load providers rest s = Inr (out, s')" for out s'
  proof -
    from load_loadCallback[OF l] agg obtain cbfn told where
      "(out, s') = loadCallback cbfn told (Inr conf) s" by auto
    then have "out = fst (loadCallback cbfn told (Inr conf) s)" by (metis fst_conv)
    with e show ?thesis by (simp add: loadCallback_promise)
  qed
  from 1 2 3 show ?thesis by blast
qed

theorem empty_mapping_rejected_witness:
  "fst (add kibbutz_single [JObj snapshot_no_repositories] newConnector)
     = Some (ConfigurationError (JStr ''Invalid configuration'') JUndefined)
   \<and> (\<exists>out s'. load (kibbutz_load_value snapshot_no_repositories) (JArr [JObj []]) [] newConnector = Inr (out, s')
        \<and> promise out = Rejected (ConfigurationError (JStr ''Invalid configuration'') JUndefined))"
proof -
  have h: "Object_keys (get snapshot_no_repositories ''databases'') = []
         \<or> Object_keys (get snapshot_no_repositories ''repositories'') = []"
    by (simp add: snapshot_no_repositories_def get_def)
  from empty_mapping_rejected[OF h, of newConnector "[JObj snapshot_no_repositories]" kibbutz_single]
  show ?thesis
    by (simp add: eval_defs snapshot_no_repositories_def load_def loadCallback_def arg_def assertCallback_def
        kibbutz_load_value_def deliver_def)
qed

subsection \<open>C10\<close>

text \<open>
  \<^bold>\<open>C10\<close> (as the code has it). When a later snapshot applies database \<open>d\<close> again
  and maps repository \<open>r2\<close> to it, a repository \<open>r1\<close> mapped to \<open>d\<close> earlier that the
  snapshot does not list keeps its entry and its pool, \<open>r2\<close> gets the pool just
  constructed for \<open>d\<close>, and the two pools differ although both entries name \<open>d\<close>;
  \<^verbatim>\<open>getPool\<close> returns them accordingly.
\<close>

theorem earlier_repository_keeps_pool:
  assumes "pools_allocated s"
    and "fill conf s = (None, s')"
    and "map_of (repositories s) r1 = Some e1"
    and "databaseName e1 = JStr d"
    and "r1 \<notin> set (Object_keys (get conf ''repositories''))"
    and "r2 \<in> set (Object_keys (get conf ''repositories''))"
    and "getprop (get conf ''repositories'') r2 = JStr d"
    and "d \<in> set (Object_keys (get conf ''databases''))"
  shows "map_of (repositories s') r1 = Some e1
    \<and> (\<exists>e2. map_of (repositories s') r2 = Some e2
          \<and> databaseName e2 = databaseName e1
          \<and> map_of (databases s') d = Some \<lparr>name = d, pool = pool e2\<rparr>
          \<and> pool_id (pool e1) < next_pool s \<and> next_pool s \<le> pool_id (pool e2)
          \<and> pool e2 \<noteq> pool e1
          \<and> (r1 \<noteq> [] \<longrightarrow> getPool s' (JStr r1) = Inr (pool e1))
          \<and> (r2 \<noteq> [] \<longrightarrow> getPool s' (JStr r2) = Inr (pool e2)))"
proof -
  from fill_other_repository[OF assms(2,5)] assms(3)
  have r1: "map_of (repositories s') r1 = Some e1" by simp
  from fill_stored_database[OF assms(2,8)] obtain p where
    p: "map_of (databases s') d = Some \<lparr>name = d, pool = p\<rparr>" "next_pool s \<le> pool_id p" by blast
  from fill_stored[OF assms(2,6)] assms(7) p(1)
  have r2: "map_of (repositories s') r2 = Some \<lparr>name = r2, pool = p, databaseName = JStr d\<rparr>"
    by auto
  from map_of_SomeD[OF assms(3)] assms(1) have old: "pool_id (pool e1) < next_pool s"
    by (auto simp: pools_allocated_def list_all_iff)
  with p(2) have ne: "p \<noteq> pool e1" by auto
  from getPool_stored[OF r1] getPool_stored[OF r2] r1 r2 p old ne assms(4)
  show ?thesis by simp
qed

theorem earlier_repository_keeps_pool_witness:
  "getPool (snd (fill snapshot_readd (snd (fill snapshot_primary newConnector)))) (JStr ''test'')
     = Inr \<lparr>pool_id = 0, pool_conf = localhost\<rparr>
   \<and> getPool (snd (fill snapshot_readd (snd (fill snapshot_primary newConnector)))) (JStr ''orders'')
     = Inr \<lparr>pool_id = 1, pool_conf = localhost\<rparr>
   \<and> map_option databaseName
       (map_of (repositories (snd (fill snapshot_readd (snd (fill snapshot_primary newConnector))))) ''test'')
     = Some (JStr ''primary'')
   \<and> map_option databaseName
       (map_of (repositories (snd (fill snapshot_readd (snd (fill snapshot_primary newConnector))))) ''orders'')
     = Some (JStr ''primary'')"
proof -
  let ?s = "snd (fill snapshot_primary newConnector)"
  let ?s' = "snd (fill snapshot_readd ?s)"
  let ?e1 = "\<lparr>name = ''test'', pool = \<lparr>pool_id = 0, pool_conf = localhost\<rparr>, databaseName = JStr ''primary''\<rparr>"
  have a: "pools_allocated ?s"
    by (simp add: pools_allocated_def eval_defs snapshot_defs)
  have f: "fill snapshot_readd ?s = (None, ?s')"
    by (simp add: eval_defs snapshot_defs snapshot_readd_def)
  have m: "map_of (repositories ?s) ''test'' = Some ?e1"
    by (simp add: eval_defs snapshot_defs)
  have n: "databaseName ?e1 = JStr ''primary''" by simp
  have k1: "''test'' \<notin> set (Object_keys (get snapshot_readd ''repositories''))"
    by (simp add: snapshot_readd_def get_def)
  have k2: "''orders'' \<in> set (Object_keys (get snapshot_readd ''repositories''))"
    by (simp add: snapshot_readd_def get_def)
  have g: "getprop (get snapshot_readd ''repositories'') ''orders'' = JStr ''primary''"
    by (simp add: snapshot_readd_def get_def)
  have k3: "''primary'' \<in> set (Object_keys (get snapshot_readd ''databases''))"
    by (simp add: snapshot_readd_def get_def)
  from earlier_repository_keeps_pool[OF a f m n k1 k2 g k3] show ?thesis
    by (simp add: eval_defs snapshot_defs snapshot_readd_def)
qed

text \<open>
  The claim as stated fails for a repository the later snapshot lists again: applying the
  same snapshot a second time constructs a new pool for \<^verbatim>\<open>primary\<close> and writes a new
  entry for \<^verbatim>\<open>test\<close>, so \<^verbatim>\<open>getPool\<close> returns the new pool for the repository that
  existed before.
\<close>

theorem relisted_repository_counterexample:
  "fst (add kibbutz_single [JObj snapshot_primary] newConnector) = None
   \<and> getPool (snd (add kibbutz_single [JObj snapshot_primary] newConnector)) (JStr ''test'')
       = Inr \<lparr>pool_id = 0, pool_conf = localhost\<rparr>
   \<and> map_option databaseName
        (map_of (repositories (snd (add kibbutz_single [JObj snapshot_primary] newConnector))) ''test'')
       = Some (JStr ''primary'')
   \<and> Object_keys (get snapshot_primary ''databases'') = [''primary'']
   \<and> fst (add kibbutz_single [JObj snapshot_primary]
            (snd (add kibbutz_single [JObj snapshot_primary] newConnector))) = None
   \<and> getPool (snd (add kibbutz_single [JObj snapshot_primary]
                   (snd (add kibbutz_single [JObj snapshot_primary] newConnector)))) (JStr ''test'')
       = Inr \<lparr>pool_id = 1, pool_conf = localhost\<rparr>"
  by (simp add: eval_defs snapshot_defs)

end
